theory Spec2Isabelle
  imports Complex_Main "HOL-Library.Word"
begin

section \<open>The particle population of \<^verbatim>\<open>clustering_game.cc\<close>\<close>

text \<open>
  A shallow embedding of \<^verbatim>\<open>initialize_neutrons\<close> and \<^verbatim>\<open>move_neutrons\<close>.
  Doubles are modelled by exact reals; the one non-finite value the program can produce,
  the \<open>+inf\<close> of \<^verbatim>\<open>-std::log(0.0)\<close>, is a constructor of its own. Rounding is outside
  the model.
\<close>

subsection \<open>Problem constants (lines 8--18)\<close>

definition WIDTH :: nat where "WIDTH = 1920"
definition HEIGHT :: nat where "HEIGHT = 1080"

definition nu :: real where "nu = 2.5"
definition sig_s :: real where "sig_s = 0.27"
definition sig_c :: real where "sig_c = 0.02"
definition sig_f :: real where "sig_f = sig_c / (nu - 1.0)"
definition sig_t :: real where "sig_t = sig_s + sig_c + sig_f"
definition vel :: real where "vel = 20000.0 * 100.0"

text \<open>The largest \<^verbatim>\<open>int\<close> (32 bits), and the largest value of \<^verbatim>\<open>rand()\<close> (glibc).\<close>

definition INT_MAX :: nat where "INT_MAX = 2147483647"
definition RAND_MAX :: nat where "RAND_MAX = 2147483647"

subsection \<open>Data (lines 25--62)\<close>

text \<open>
  Modelled from the spec: \<^verbatim>\<open>openmc/position.h\<close> is not among the sources. A position is a
  point with three coordinates (the spec's ``3D coordinate type''), a direction has the same
  type, and \<open>position += direction * distance\<close> works on each coordinate.
  The fields \<^verbatim>\<open>x\<close>, \<^verbatim>\<open>y\<close>, \<^verbatim>\<open>z\<close> carry the suffix \<open>_p\<close>.
\<close>

record Position =
  x_p :: real
  y_p :: real
  z_p :: real

type_synonym Direction = Position

definition scale :: "Position \<Rightarrow> real \<Rightarrow> Position" where
  "scale p a = \<lparr>x_p = x_p p * a, y_p = y_p p * a, z_p = z_p p * a\<rparr>"

definition plus_pos :: "Position \<Rightarrow> Position \<Rightarrow> Position" where
  "plus_pos p q = \<lparr>x_p = x_p p + x_p q, y_p = y_p p + y_p q, z_p = z_p p + z_p q\<rparr>"

text \<open>\<^verbatim>\<open>struct Color\<close>: three \<^verbatim>\<open>unsigned char\<close> (fields suffixed \<open>_c\<close>).\<close>

record Color =
  r_c :: "8 word"
  g_c :: "8 word"
  b_c :: "8 word"

text \<open>
  The value of \<^verbatim>\<open>distance_to_collision\<close>: a finite double, or \<open>+inf\<close>.
  \<open>is_neg\<close> is the test \<^verbatim>\<open>d < 0\<close>, \<open>minus_dbl\<close> is \<^verbatim>\<open>d -= dist\<close> for a finite \<open>dist\<close>.
\<close>

datatype dbl = Num real | PosInf

fun is_neg :: "dbl \<Rightarrow> bool" where
  "is_neg (Num v) = (v < 0)"
| "is_neg PosInf = False"

fun minus_dbl :: "dbl \<Rightarrow> real \<Rightarrow> dbl" where
  "minus_dbl (Num v) a = Num (v - a)"
| "minus_dbl PosInf a = PosInf"

text \<open>\<^verbatim>\<open>struct Neutron\<close> (fields \<^verbatim>\<open>r\<close>, \<^verbatim>\<open>u\<close>, \<^verbatim>\<open>c\<close> suffixed \<open>_n\<close>).\<close>

record Neutron =
  r_n :: Position
  u_n :: Direction
  distance_to_collision :: dbl
  alive :: bool
  c_n :: Color

text \<open>
  The state the two functions work on: the vector (its elements and its \<^verbatim>\<open>capacity()\<close>),
  the generator behind \<^verbatim>\<open>rand()\<close> and the one behind \<^verbatim>\<open>dir_distr.sample(&dir_seed)\<close>.
  A generator is the sequence of the values it returns and the number of calls made so far.
  \<^verbatim>\<open>rand()\<close> returns an \<^verbatim>\<open>int\<close> between 0 and \<^verbatim>\<open>RAND_MAX\<close> = \<open>2^31 - 1\<close>: a 31-bit value.
  The isotropic sampler of openmc is not among the sources: its values are a parameter.
  So is the capacity that \<^verbatim>\<open>emplace_back\<close> gives a full vector when it reallocates it, which
  the library chooses from the size: \<open>emplace_capacity\<close>.
\<close>

record world =
  neuts :: "Neutron list"
  capacity :: nat
  emplace_capacity :: "nat \<Rightarrow> nat"
  rand_src :: "nat \<Rightarrow> 31 word"
  rand_calls :: nat
  dir_src :: "nat \<Rightarrow> Direction"
  dir_calls :: nat

datatype error = SignedOverflow | DivisionByZero | DanglingReference

subsection \<open>Random draws (lines 20--23)\<close>

definition rand :: "world \<Rightarrow> nat \<times> world" where
  "rand st = (unat (rand_src st (rand_calls st)), st\<lparr>rand_calls := Suc (rand_calls st)\<rparr>)"

definition randf :: "world \<Rightarrow> real \<times> world" where
  "randf st = (case rand st of (k, st') \<Rightarrow> (real k / real RAND_MAX, st'))"

definition sample :: "world \<Rightarrow> Direction \<times> world" where
  "sample st = (dir_src st (dir_calls st), st\<lparr>dir_calls := Suc (dir_calls st)\<rparr>)"

text \<open>
  \<^verbatim>\<open>-std::log(x) / sig_t\<close> for \<open>x\<close> in \<open>[0, 1]\<close>: \<^verbatim>\<open>log(0.0)\<close> is \<open>-inf\<close>, so the quotient is
  \<open>+inf\<close> there.
\<close>

definition neg_log_over_sig_t :: "real \<Rightarrow> dbl" where
  "neg_log_over_sig_t x = (if x = 0 then PosInf else Num (- ln x / sig_t))"

subsection \<open>One pass of \<^verbatim>\<open>move_neutrons\<close> (lines 140--188)\<close>

text \<open>
  The scan of lines 160--169: the index of the first element that is not alive.
\<close>

fun first_dead :: "Neutron list \<Rightarrow> nat option" where
  "first_dead [] = None"
| "first_dead (p # ps) = (if \<not> alive p then Some 0 else map_option Suc (first_dead ps))"

text \<open>
  Lines 163--165: the dead slot \<open>j\<close> becomes a copy of \<^verbatim>\<open>n\<close> = \<^verbatim>\<open>neuts[nn]\<close>, then gets a
  direction and a distance of its own.
\<close>

definition reuse_slot :: "nat \<Rightarrow> nat \<Rightarrow> world \<Rightarrow> world" where
  "reuse_slot j nn st =
     (let st1 = st\<lparr>neuts := (neuts st)[j := neuts st ! nn]\<rparr>;
          (d, st2) = sample st1;
          st3 = st2\<lparr>neuts := (neuts st2)[j := (neuts st2 ! j)\<lparr>u_n := d\<rparr>]\<rparr>;
          (xi, st4) = randf st3
      in st4\<lparr>neuts := (neuts st4)[j := (neuts st4 ! j)
                \<lparr>distance_to_collision := neg_log_over_sig_t xi\<rparr>]\<rparr>)"

text \<open>
  Lines 171--173: a copy of \<^verbatim>\<open>n\<close> is appended, then gets a direction and a distance of its
  own (from \<^verbatim>\<open>1 - randf()\<close>); both are written through \<^verbatim>\<open>neuts[neuts.size()-1]\<close>.
\<close>

definition push_copy :: "nat \<Rightarrow> world \<Rightarrow> world" where
  "push_copy nn st =
     (let st1 = st\<lparr>neuts := neuts st @ [neuts st ! nn]\<rparr>;
          k = length (neuts st1) - 1;
          (d, st2) = sample st1;
          st3 = st2\<lparr>neuts := (neuts st2)[k := (neuts st2 ! k)\<lparr>u_n := d\<rparr>]\<rparr>;
          (xi, st4) = randf st3
      in st4\<lparr>neuts := (neuts st4)[k := (neuts st4 ! k)
                \<lparr>distance_to_collision := neg_log_over_sig_t (1 - xi)\<rparr>]\<rparr>)"

text \<open>
  One round of the \<^verbatim>\<open>while\<close> loop (lines 159--174), entered with a valid reference
  \<^verbatim>\<open>n\<close>. The result is the state after the round and whether \<^verbatim>\<open>n\<close> is still valid.
  The counter \<^verbatim>\<open>nnn\<close> is an \<^verbatim>\<open>int\<close>: it cannot pass \<open>INT_MAX\<close>. When nothing is dead and
  \<open>size() = capacity()\<close>, \<^verbatim>\<open>emplace_back\<close> reallocates: the element is appended all the
  same, the capacity is the one the library chooses, and the reference \<^verbatim>\<open>n\<close> taken at
  line 142 is invalid from then on.
\<close>

definition emit_one :: "nat \<Rightarrow> world \<Rightarrow> error + world \<times> bool" where
  "emit_one nn st =
     (case first_dead (neuts st) of
        Some j \<Rightarrow> if j \<le> INT_MAX then Inr (reuse_slot j nn st, True) else Inl SignedOverflow
      | None \<Rightarrow>
          if INT_MAX < length (neuts st) then Inl SignedOverflow
          else if length (neuts st) < capacity st then Inr (push_copy nn st, True)
          else Inr (push_copy nn (st\<lparr>capacity := emplace_capacity st (length (neuts st))\<rparr>),
                    False))"

text \<open>
  The \<^verbatim>\<open>while (n_new > 0)\<close> loop of lines 158--176. After a round that has invalidated
  \<^verbatim>\<open>n\<close>, whatever comes next uses \<^verbatim>\<open>n\<close>: the next round at line 163 or 171, or, when the
  loop is over, lines 179--186. The behaviour is undefined from there on: the model stops
  with \<open>DanglingReference\<close>. A result of the loop is a state in which \<^verbatim>\<open>n\<close> is valid.
\<close>

fun emit :: "nat \<Rightarrow> nat \<Rightarrow> world \<Rightarrow> error + world" where
  "emit 0 nn st = Inr st"
| "emit (Suc n_new) nn st =
     (case emit_one nn st of
        Inl e \<Rightarrow> Inl e
      | Inr (st', valid) \<Rightarrow> if valid then emit n_new nn st' else Inl DanglingReference)"

text \<open>Lines 151--155: the number of secondaries, \<^verbatim>\<open>(int)nu\<close>, perhaps one more, less one.\<close>

definition fission_count :: "world \<Rightarrow> nat \<times> world" where
  "fission_count st =
     (let n_new = nat \<lfloor>nu\<rfloor>;
          (xi, st1) = randf st;
          n_new = (if xi < nu - real n_new then n_new + 1 else n_new)
      in (n_new - 1, st1))"

text \<open>Lines 179--180: the particle's own distance and direction are drawn again.\<close>

definition resample :: "nat \<Rightarrow> world \<Rightarrow> world" where
  "resample nn st =
     (let (xi, st1) = randf st;
          st2 = st1\<lparr>neuts := (neuts st1)[nn := (neuts st1 ! nn)
                  \<lparr>distance_to_collision := neg_log_over_sig_t xi\<rparr>]\<rparr>;
          (d, st3) = sample st2
      in st3\<lparr>neuts := (neuts st3)[nn := (neuts st3 ! nn)\<lparr>u_n := d\<rparr>]\<rparr>)"

text \<open>Lines 145--181: the collision of particle \<open>nn\<close>.\<close>

definition collide :: "nat \<Rightarrow> world \<Rightarrow> error + world" where
  "collide nn st =
     (let (xi, st1) = randf st in
      if xi < sig_c / sig_t then
        Inr (resample nn (st1\<lparr>neuts := (neuts st1)[nn := (neuts st1 ! nn)\<lparr>alive := False\<rparr>]\<rparr>))
      else if xi < (sig_c + sig_f) / sig_t then
        (let (n_new, st2) = fission_count st1 in
         case emit n_new nn st2 of Inl e \<Rightarrow> Inl e | Inr st3 \<Rightarrow> Inr (resample nn st3))
      else Inr (resample nn st1))"

text \<open>Lines 184--186: the motion of particle \<open>nn\<close>.\<close>

definition advance :: "real \<Rightarrow> Neutron \<Rightarrow> Neutron" where
  "advance dt n =
     (let dist = vel * dt
      in n\<lparr>r_n := plus_pos (r_n n) (scale (u_n n) dist),
           distance_to_collision := minus_dbl (distance_to_collision n) dist\<rparr>)"

definition move_one :: "nat \<Rightarrow> real \<Rightarrow> world \<Rightarrow> world" where
  "move_one nn dt st = st\<lparr>neuts := (neuts st)[nn := advance dt (neuts st ! nn)]\<rparr>"

text \<open>The body of the \<^verbatim>\<open>for\<close> loop (lines 142--186) for an index \<open>nn < size()\<close>.\<close>

definition step :: "nat \<Rightarrow> real \<Rightarrow> world \<Rightarrow> error + world" where
  "step nn dt st =
     (if \<not> alive (neuts st ! nn) then Inr st
      else if is_neg (distance_to_collision (neuts st ! nn)) then
        (case collide nn st of Inl e \<Rightarrow> Inl e | Inr st' \<Rightarrow> Inr (move_one nn dt st'))
      else Inr (move_one nn dt st))"

text \<open>
  The \<^verbatim>\<open>for\<close> loop of line 141, from the cursor \<open>nn\<close> on. The bound \<^verbatim>\<open>neuts.size()\<close> is
  read again at every round, so elements appended by a round are inside the bound of the
  next ones. The cursor is an \<^verbatim>\<open>int\<close>: \<^verbatim>\<open>++nn\<close> at \<open>INT_MAX\<close> overflows.
\<close>

function move_from :: "nat \<Rightarrow> real \<Rightarrow> world \<Rightarrow> error + world" where
  "move_from nn dt st =
     (if nn < length (neuts st) then
        (case step nn dt st of
           Inl e \<Rightarrow> Inl e
         | Inr st' \<Rightarrow> if INT_MAX \<le> nn then Inl SignedOverflow else move_from (Suc nn) dt st')
      else Inr st)"
  by pat_completeness auto
termination
  by (relation "measure (\<lambda>(nn, dt, st). INT_MAX - nn)") auto

definition move_neutrons :: "real \<Rightarrow> world \<Rightarrow> error + world" where
  "move_neutrons dt st = move_from 0 dt st"

subsection \<open>\<^verbatim>\<open>random_color\<close> (lines 33--53)\<close>

definition random_color :: "world \<Rightarrow> Color \<times> world" where
  "random_color st =
     (let (k0, st1) = rand st; rgb0 = (of_nat (k0 mod 256) :: 8 word);
          (k1, st2) = rand st1; rgb1 = (of_nat (k1 mod 256) :: 8 word);
          (k2, st3) = rand st2; rgb2 = (of_nat (k2 mod 256) :: 8 word)
      in if 200 < rgb0 \<and> 200 < rgb1 \<and> 200 < rgb2 then
           (let (k3, st4) = rand st3; indx = k3 mod 3
            in (\<lparr>r_c = (if indx = 0 then 10 else rgb0),
                 g_c = (if indx = 1 then 10 else rgb1),
                 b_c = (if indx = 2 then 10 else rgb2)\<rparr>, st4))
         else (\<lparr>r_c = rgb0, g_c = rgb1, b_c = rgb2\<rparr>, st3))"

subsection \<open>\<^verbatim>\<open>initialize_neutrons\<close> (lines 88--116)\<close>

text \<open>
  \<^verbatim>\<open>int\<close> arithmetic: a result above \<open>INT_MAX\<close> is a signed overflow, a zero divisor is a
  division by zero. All the values here are non-negative.
\<close>

definition to_int :: "nat \<Rightarrow> error + nat" where
  "to_int v = (if v \<le> INT_MAX then Inr v else Inl SignedOverflow)"

definition int_div :: "nat \<Rightarrow> nat \<Rightarrow> error + nat" where
  "int_div a b = (if b = 0 then Inl DivisionByZero else Inr (a div b))"

text \<open>
  \<^verbatim>\<open>std::sqrt\<close> of a non-negative integer, truncated to \<^verbatim>\<open>int\<close>: the largest \<open>k\<close> with
  \<open>k * k \<le> n\<close>, searched from \<open>n\<close> downwards.
\<close>

fun sqrt_floor_from :: "nat \<Rightarrow> nat \<Rightarrow> nat" where
  "sqrt_floor_from 0 n = 0"
| "sqrt_floor_from (Suc k) n = (if Suc k * Suc k \<le> n then Suc k else sqrt_floor_from k n)"

definition sqrt_floor :: "nat \<Rightarrow> nat" where
  "sqrt_floor n = sqrt_floor_from n n"

text \<open>
  \<^verbatim>\<open>std::vector::resize\<close>: a shorter vector keeps its first elements and its capacity; a
  longer one gets value-initialised elements (all fields zero, \<^verbatim>\<open>alive\<close> false) and, when the
  capacity is too small, a new capacity chosen by the library: the parameter \<open>grow\<close>, from the
  old capacity, the old size and the new size.
\<close>

definition zero_Neutron :: Neutron where
  "zero_Neutron =
     \<lparr>r_n = \<lparr>x_p = 0, y_p = 0, z_p = 0\<rparr>, u_n = \<lparr>x_p = 0, y_p = 0, z_p = 0\<rparr>,
      distance_to_collision = Num 0, alive = False, c_n = \<lparr>r_c = 0, g_c = 0, b_c = 0\<rparr>\<rparr>"

definition resize :: "(nat \<Rightarrow> nat \<Rightarrow> nat \<Rightarrow> nat) \<Rightarrow> nat \<Rightarrow> world \<Rightarrow> world" where
  "resize grow n st =
     (if n \<le> length (neuts st) then st\<lparr>neuts := take n (neuts st)\<rparr>
      else st\<lparr>neuts := neuts st @ replicate (n - length (neuts st)) zero_Neutron,
              capacity := (if n \<le> capacity st then capacity st
                           else grow (capacity st) (length (neuts st)) n)\<rparr>)"

text \<open>The choice of libstdc++: twice the old size, or the new size when that is larger.\<close>

definition grow_libstdcxx :: "nat \<Rightarrow> nat \<Rightarrow> nat \<Rightarrow> nat" where
  "grow_libstdcxx c s n = max (2 * s) n"

text \<open>The body of the two nested loops (lines 99--106) at \<open>row\<close> and \<open>col\<close>.\<close>

definition init_cell :: "nat \<Rightarrow> real \<Rightarrow> real \<Rightarrow> nat \<Rightarrow> nat \<Rightarrow> world \<Rightarrow> world" where
  "init_cell ncols dr dc row col st =
     (let k = row * ncols + col;
          r = \<lparr>x_p = dc / 2.0 + real col * dc, y_p = dr / 2.0 + real row * dr, z_p = 0\<rparr>;
          st1 = st\<lparr>neuts := (neuts st)[k := (neuts st ! k)\<lparr>r_n := r\<rparr>]\<rparr>;
          (d, st2) = sample st1;
          st3 = st2\<lparr>neuts := (neuts st2)[k := (neuts st2 ! k)\<lparr>u_n := d, alive := True\<rparr>]\<rparr>;
          (c, st4) = random_color st3
      in st4\<lparr>neuts := (neuts st4)[k := (neuts st4 ! k)
                \<lparr>c_n := c, distance_to_collision := Num 0\<rparr>]\<rparr>)"

text \<open>Line 114: the element \<open>oldsize + i\<close> is marked dead.\<close>

definition mark_dead :: "nat \<Rightarrow> nat \<Rightarrow> world \<Rightarrow> world" where
  "mark_dead oldsize i st =
     st\<lparr>neuts := (neuts st)[oldsize + i := (neuts st ! (oldsize + i))\<lparr>alive := False\<rparr>]\<rparr>"

text \<open>
  The function, on the vector it is given. \<^verbatim>\<open>HEIGHT / (nrows + 1)\<close> and
  \<^verbatim>\<open>WIDTH / (ncols + 1)\<close> are divisions of \<^verbatim>\<open>int\<close>s, converted to \<^verbatim>\<open>double\<close> afterwards.
  \<^verbatim>\<open>oldsize\<close> is the size after the first \<^verbatim>\<open>resize\<close>, a value that was computed as an \<^verbatim>\<open>int\<close>.
\<close>

definition initialize_neutrons ::
  "(nat \<Rightarrow> nat \<Rightarrow> nat \<Rightarrow> nat) \<Rightarrow> world \<Rightarrow> error + world" where
  "initialize_neutrons grow st =
     (case to_int (sqrt_floor (length (neuts st) div 2)) of Inl e \<Rightarrow> Inl e | Inr nrows \<Rightarrow>
      case to_int (2 * nrows) of Inl e \<Rightarrow> Inl e | Inr ncols \<Rightarrow>
      case to_int (nrows * ncols) of Inl e \<Rightarrow> Inl e | Inr sz \<Rightarrow>
      let st1 = resize grow sz st in
      case to_int (nrows + 1) of Inl e \<Rightarrow> Inl e | Inr rows1 \<Rightarrow>
      case int_div HEIGHT rows1 of Inl e \<Rightarrow> Inl e | Inr dr \<Rightarrow>
      case to_int (ncols + 1) of Inl e \<Rightarrow> Inl e | Inr cols1 \<Rightarrow>
      case int_div WIDTH cols1 of Inl e \<Rightarrow> Inl e | Inr dc \<Rightarrow>
      let st2 = fold (\<lambda>row. fold (init_cell ncols (real dr) (real dc) row) [0..<ncols])
                  [0..<nrows] st1;
          oldsize = length (neuts st2) in
      case to_int (oldsize * 2) of Inl e \<Rightarrow> Inl e | Inr sz2 \<Rightarrow>
      let st3 = resize grow sz2 st2 in
      Inr (fold (mark_dead oldsize) [0..<oldsize] st3))"

subsection \<open>Notions of the specification\<close>

text \<open>The number of live particles, and the value \<^verbatim>\<open>randf()\<close> returns at its \<open>k\<close>-th call.\<close>

definition live_count :: "Neutron list \<Rightarrow> nat" where
  "live_count xs = length (filter alive xs)"

definition nth_randf :: "world \<Rightarrow> nat \<Rightarrow> real" where
  "nth_randf st k = real (unat (rand_src st k)) / real RAND_MAX"

text \<open>
  A particle that \<^verbatim>\<open>initialize_neutrons\<close> has placed at cell \<open>k\<close> of a grid with \<open>ncols\<close>
  columns and the spacings \<open>dr\<close> and \<open>dc\<close>.
\<close>

definition placed :: "nat \<Rightarrow> real \<Rightarrow> real \<Rightarrow> nat \<Rightarrow> Neutron \<Rightarrow> bool" where
  "placed ncols dr dc k n \<longleftrightarrow>
     alive n \<and> distance_to_collision n = Num 0
     \<and> r_n n = \<lparr>x_p = dc / 2 + real (k mod ncols) * dc,
                 y_p = dr / 2 + real (k div ncols) * dr, z_p = 0\<rparr>"

text \<open>A particle whose collision is due, and the number of them.\<close>

definition due :: "Neutron \<Rightarrow> bool" where
  "due n \<longleftrightarrow> alive n \<and> is_neg (distance_to_collision n)"

definition due_count :: "Neutron list \<Rightarrow> nat" where
  "due_count xs = length (filter due xs)"

subsection \<open>Example states\<close>

text \<open>
  A live particle whose collision is due, one whose collision is not, two directions, and a
  state with given elements, capacity and \<^verbatim>\<open>rand()\<close> values (0 once the list is used up)
  whose sampler returns \<open>north\<close> and \<open>south\<close> in turn and whose \<^verbatim>\<open>emplace_back\<close> doubles a
  full vector, as that of libstdc++ does. The value 171798692 makes \<^verbatim>\<open>randf()\<close> return about
  0.08, inside the fission band; 2147483647 makes it return 1.
\<close>

definition hot :: Neutron where
  "hot = \<lparr>r_n = \<lparr>x_p = 0, y_p = 0, z_p = 0\<rparr>, u_n = \<lparr>x_p = 1, y_p = 0, z_p = 0\<rparr>,
          distance_to_collision = Num (- 1), alive = True,
          c_n = \<lparr>r_c = 10, g_c = 20, b_c = 30\<rparr>\<rparr>"

definition cold :: Neutron where
  "cold = hot\<lparr>distance_to_collision := Num 1\<rparr>"

definition north :: Direction where
  "north = \<lparr>x_p = 0, y_p = 1, z_p = 0\<rparr>"

definition south :: Direction where
  "south = \<lparr>x_p = 0, y_p = - 1, z_p = 0\<rparr>"

definition ex_world :: "Neutron list \<Rightarrow> nat \<Rightarrow> (31 word) list \<Rightarrow> world" where
  "ex_world ns cap draws =
     \<lparr>neuts = ns, capacity = cap, emplace_capacity = (\<lambda>s. grow_libstdcxx s s (Suc s)),
      rand_src = (\<lambda>k. if k < length draws then draws ! k else 0), rand_calls = 0,
      dir_src = (\<lambda>k. if even k then north else south), dir_calls = 0\<rparr>"

section \<open>Properties of the draws and of the scan\<close>

lemma randf_eq: "randf st = (nth_randf st (rand_calls st), st\<lparr>rand_calls := Suc (rand_calls st)\<rparr>)"
  by (simp add: randf_def rand_def nth_randf_def)

lemma nth_randf_range: "0 \<le> nth_randf st k \<and> nth_randf st k \<le> 1"
proof -
  have "unat (rand_src st k) < 2 ^ 31"
    using unsigned_less [of "rand_src st k"] by simp
  then have "unat (rand_src st k) \<le> RAND_MAX"
    by (simp add: RAND_MAX_def)
  then have "real (unat (rand_src st k)) \<le> real RAND_MAX"
    by (simp only: of_nat_le_iff)
  moreover have "0 < real RAND_MAX"
    by (simp add: RAND_MAX_def)
  ultimately show ?thesis
    unfolding nth_randf_def by (simp only: divide_le_eq_1_pos zero_le_divide_iff of_nat_0_le_iff) simp
qed

lemma sig_t_pos: "0 < sig_t"
  by (simp add: sig_t_def sig_s_def sig_c_def sig_f_def nu_def)

lemma neg_log_not_neg: "0 \<le> x \<Longrightarrow> x \<le> 1 \<Longrightarrow> \<not> is_neg (neg_log_over_sig_t x)"
proof (cases "x = 0")
  case True
  then show ?thesis by (simp add: neg_log_over_sig_t_def)
next
  case False
  assume "0 \<le> x" "x \<le> 1"
  with False have "ln x \<le> 0" by simp
  then have "0 \<le> - ln x / sig_t"
    using sig_t_pos by (simp add: divide_le_0_iff)
  with False show ?thesis
    by (simp add: neg_log_over_sig_t_def not_less)
qed

lemma reuse_slot_eq:
  "j < length (neuts st) \<Longrightarrow> reuse_slot j nn st =
     st\<lparr>neuts := (neuts st)[j := (neuts st ! nn)
            \<lparr>u_n := dir_src st (dir_calls st),
             distance_to_collision := neg_log_over_sig_t (nth_randf st (rand_calls st))\<rparr>],
        rand_calls := Suc (rand_calls st), dir_calls := Suc (dir_calls st)\<rparr>"
  by (simp add: reuse_slot_def sample_def randf_eq nth_randf_def)

lemma push_copy_eq:
  "push_copy nn st =
     st\<lparr>neuts := neuts st @ [(neuts st ! nn)
            \<lparr>u_n := dir_src st (dir_calls st),
             distance_to_collision := neg_log_over_sig_t (1 - nth_randf st (rand_calls st))\<rparr>],
        rand_calls := Suc (rand_calls st), dir_calls := Suc (dir_calls st)\<rparr>"
  by (simp add: push_copy_def sample_def randf_eq nth_randf_def)

lemma resample_eq:
  "nn < length (neuts st) \<Longrightarrow> resample nn st =
     st\<lparr>neuts := (neuts st)[nn := (neuts st ! nn)
            \<lparr>distance_to_collision := neg_log_over_sig_t (nth_randf st (rand_calls st)),
             u_n := dir_src st (dir_calls st)\<rparr>],
        rand_calls := Suc (rand_calls st), dir_calls := Suc (dir_calls st)\<rparr>"
  by (simp add: resample_def sample_def randf_eq nth_randf_def)

lemma first_dead_Some:
  "first_dead xs = Some j \<longleftrightarrow> j < length xs \<and> \<not> alive (xs ! j) \<and> (\<forall>i<j. alive (xs ! i))"
proof (induction xs arbitrary: j)
  case Nil
  then show ?case by simp
next
  case (Cons p ps)
  show ?case
  proof (cases "alive p")
    case False
    then show ?thesis
      by (cases j) auto
  next
    case True
    show ?thesis
    proof (cases j)
      case 0
      with True show ?thesis by auto
    next
      case (Suc k)
      have "(\<forall>i<Suc k. alive ((p # ps) ! i)) \<longleftrightarrow> (\<forall>i<k. alive (ps ! i))"
        using True by (auto simp: less_Suc_eq_0_disj)
      with True Suc Cons.IH [of k] show ?thesis
        by auto
    qed
  qed
qed



lemma live_count_kill:
  "nn < length xs \<Longrightarrow> alive (xs ! nn) \<Longrightarrow>
   Suc (live_count (xs[nn := (xs ! nn)\<lparr>alive := False\<rparr>])) = live_count xs"
proof (induction xs arbitrary: nn)
  case Nil
  then show ?case by simp
next
  case (Cons p ps)
  then show ?case
    by (cases nn) (auto simp: live_count_def)
qed



lemma snd_randf: "snd (randf st) = st\<lparr>rand_calls := Suc (rand_calls st)\<rparr>"
  by (simp add: randf_eq)

lemma nth_randf_rand_calls [simp]: "nth_randf (st\<lparr>rand_calls := k\<rparr>) = nth_randf st"
  by (rule ext) (simp add: nth_randf_def)

lemma nth_randf_neuts [simp]: "nth_randf (st\<lparr>neuts := xs\<rparr>) = nth_randf st"
  by (rule ext) (simp add: nth_randf_def)

lemma nth_randf_dir_calls [simp]: "nth_randf (st\<lparr>dir_calls := k\<rparr>) = nth_randf st"
  by (rule ext) (simp add: nth_randf_def)

lemma fission_count_eq:
  "fission_count st =
     ((if nth_randf st (rand_calls st) < 1 / 2 then 2 else 1), st\<lparr>rand_calls := Suc (rand_calls st)\<rparr>)"
  by (simp add: fission_count_def randf_eq nu_def)

lemma emit_one_cases:
  assumes "emit_one nn st = Inr (st', True)"
  obtains (reuse) j where "first_dead (neuts st) = Some j" "st' = reuse_slot j nn st"
  | (push) "first_dead (neuts st) = None" "length (neuts st) < capacity st"
      "st' = push_copy nn st"
  using assms by (auto simp: emit_one_def split: option.splits if_splits)

text \<open>What one emission leaves as it was.\<close>

lemma emit_one_frame:
  assumes "emit_one nn st = Inr (st', True)"
  shows "length (neuts st) \<le> length (neuts st')"
    and "capacity st' = capacity st"
    and "rand_src st' = rand_src st" and "dir_src st' = dir_src st"
    and "rand_calls st' = Suc (rand_calls st)" and "dir_calls st' = Suc (dir_calls st)"
    and "length (neuts st') \<le> max (length (neuts st)) (capacity st)"
  using assms
  by (auto elim!: emit_one_cases simp: first_dead_Some reuse_slot_eq push_copy_eq)

lemma emit_one_alive_kept:
  assumes "emit_one nn st = Inr (st', True)" "i < length (neuts st)" "alive (neuts st ! i)"
  shows "neuts st' ! i = neuts st ! i"
  using assms
  by (auto elim!: emit_one_cases
      simp: first_dead_Some reuse_slot_eq push_copy_eq nth_append nth_list_update)

lemma emit_one_changed:
  assumes "emit_one nn st = Inr (st', True)" "nn < length (neuts st)" "alive (neuts st ! nn)"
    "i < length (neuts st')" "i < length (neuts st) \<longrightarrow> \<not> alive (neuts st ! i)"
  shows "i < length (neuts st) \<and> neuts st' ! i = neuts st ! i
       \<or> alive (neuts st' ! i) \<and> \<not> is_neg (distance_to_collision (neuts st' ! i))"
  using assms nth_randf_range [of st "rand_calls st"]
  by (auto elim!: emit_one_cases
      simp: first_dead_Some reuse_slot_eq push_copy_eq nth_append nth_list_update neg_log_not_neg
            less_Suc_eq)


subsection \<open>The emission loop\<close>

lemma emit_frame:
  assumes "emit k nn st = Inr st'"
  shows "length (neuts st) \<le> length (neuts st') \<and> capacity st' = capacity st
       \<and> rand_src st' = rand_src st \<and> dir_src st' = dir_src st
       \<and> rand_calls st' = rand_calls st + k \<and> dir_calls st' = dir_calls st + k"
  using assms
proof (induction k arbitrary: st)
  case 0
  then show ?case by simp
next
  case (Suc k)
  from Suc.prems obtain s1 where one: "emit_one nn st = Inr (s1, True)" and rest: "emit k nn s1 = Inr st'"
    by (auto split: sum.splits prod.splits if_splits)
  from emit_one_frame [OF one] Suc.IH [OF rest] show ?case
    by simp
qed

lemma emit_alive_kept:
  assumes "emit k nn st = Inr st'" "i < length (neuts st)" "alive (neuts st ! i)"
  shows "neuts st' ! i = neuts st ! i"
  using assms
proof (induction k arbitrary: st)
  case 0
  then show ?case by simp
next
  case (Suc k)
  from Suc.prems obtain s1 where one: "emit_one nn st = Inr (s1, True)" and rest: "emit k nn s1 = Inr st'"
    by (auto split: sum.splits prod.splits if_splits)
  have same: "neuts s1 ! i = neuts st ! i"
    using emit_one_alive_kept [OF one] Suc.prems by simp
  have "i < length (neuts s1)"
    using emit_one_frame(1) [OF one] Suc.prems by simp
  with Suc.IH [OF rest] same Suc.prems show ?case
    by simp
qed

lemma emit_new:
  assumes "emit k nn st = Inr st'" "nn < length (neuts st)" "alive (neuts st ! nn)"
    "length (neuts st) \<le> i" "i < length (neuts st')"
  shows "alive (neuts st' ! i) \<and> \<not> is_neg (distance_to_collision (neuts st' ! i))"
  using assms
proof (induction k arbitrary: st)
  case 0
  then show ?case by simp
next
  case (Suc k)
  from Suc.prems obtain s1 where one: "emit_one nn st = Inr (s1, True)" and rest: "emit k nn s1 = Inr st'"
    by (auto split: sum.splits prod.splits if_splits)
  have len: "length (neuts st) \<le> length (neuts s1)"
    by (rule emit_one_frame(1) [OF one])
  have parent: "nn < length (neuts s1)" "alive (neuts s1 ! nn)"
    using len Suc.prems emit_one_alive_kept [OF one, of nn] by simp_all
  show ?case
  proof (cases "i < length (neuts s1)")
    case True
    have "alive (neuts s1 ! i) \<and> \<not> is_neg (distance_to_collision (neuts s1 ! i))"
      using emit_one_changed [OF one, of i] Suc.prems True by simp
    moreover from this have "neuts st' ! i = neuts s1 ! i"
      using emit_alive_kept [OF rest True] by simp
    ultimately show ?thesis by simp
  next
    case False
    with Suc.IH [OF rest parent] Suc.prems show ?thesis by simp
  qed
qed

subsection \<open>The collision\<close>

lemma collide_cases:
  assumes "collide nn st = Inr st'" "nn < length (neuts st)"
  obtains (capture) "fst (randf st) < sig_c / sig_t"
      "st' = resample nn (st\<lparr>rand_calls := Suc (rand_calls st),
               neuts := (neuts st)[nn := (neuts st ! nn)\<lparr>alive := False\<rparr>]\<rparr>)"
  | (fission) s where "\<not> fst (randf st) < sig_c / sig_t"
      "fst (randf st) < (sig_c + sig_f) / sig_t"
      "emit (fst (fission_count (snd (randf st)))) nn (snd (fission_count (snd (randf st)))) = Inr s"
      "st' = resample nn s"
  | (scatter) "\<not> fst (randf st) < (sig_c + sig_f) / sig_t"
      "st' = resample nn (st\<lparr>rand_calls := Suc (rand_calls st)\<rparr>)"
  using assms
  by (auto simp: collide_def randf_eq split: if_splits sum.splits prod.splits)

lemma collide_frame:
  assumes "collide nn st = Inr st'" "nn < length (neuts st)"
  shows "length (neuts st) \<le> length (neuts st') \<and> capacity st' = capacity st
       \<and> rand_src st' = rand_src st \<and> dir_src st' = dir_src st
       \<and> rand_calls st < rand_calls st' \<and> dir_calls st < dir_calls st'"
  using assms
proof (cases rule: collide_cases)
  case capture
  then show ?thesis by (simp add: resample_eq assms)
next
  case (fission s)
  from emit_frame [OF fission(3)] have "nn < length (neuts s)"
    using assms by (simp add: fission_count_eq randf_eq)
  with emit_frame [OF fission(3)] fission(4) show ?thesis
    by (simp add: resample_eq fission_count_eq randf_eq)
next
  case scatter
  then show ?thesis by (simp add: resample_eq assms)
qed

lemma collide_alive_kept:
  assumes "collide nn st = Inr st'" "nn < length (neuts st)"
    "i < length (neuts st)" "alive (neuts st ! i)" "i \<noteq> nn"
  shows "neuts st' ! i = neuts st ! i"
  using assms(1,2)
proof (cases rule: collide_cases)
  case capture
  then show ?thesis using assms by (simp add: resample_eq)
next
  case (fission s)
  from emit_frame [OF fission(3)] have "nn < length (neuts s)"
    using assms by (simp add: fission_count_eq randf_eq)
  moreover have "neuts s ! i = neuts st ! i"
    using emit_alive_kept [OF fission(3), of i] assms by (simp add: fission_count_eq randf_eq)
  ultimately show ?thesis
    using fission(4) assms by (simp add: resample_eq)
next
  case scatter
  then show ?thesis using assms by (simp add: resample_eq)
qed

lemma collide_new:
  assumes "collide nn st = Inr st'" "nn < length (neuts st)" "alive (neuts st ! nn)"
    "length (neuts st) \<le> i" "i < length (neuts st')"
  shows "alive (neuts st' ! i) \<and> \<not> is_neg (distance_to_collision (neuts st' ! i))"
  using assms(1,2)
proof (cases rule: collide_cases)
  case capture
  then show ?thesis using assms by (simp add: resample_eq)
next
  case (fission s)
  from emit_frame [OF fission(3)] have nn: "nn < length (neuts s)"
    using assms by (simp add: fission_count_eq randf_eq)
  have "i < length (neuts s)"
    using fission(4) assms nn by (simp add: resample_eq)
  then have "alive (neuts s ! i) \<and> \<not> is_neg (distance_to_collision (neuts s ! i))"
    using emit_new [OF fission(3), of i] assms by (simp add: fission_count_eq randf_eq)
  then show ?thesis
    using fission(4) assms nn by (simp add: resample_eq)
next
  case scatter
  then show ?thesis using assms by (simp add: resample_eq)
qed

text \<open>After a collision that completes, the particle has a fresh distance and direction.\<close>

lemma collide_self:
  assumes "collide nn st = Inr st'" "nn < length (neuts st)"
  shows "distance_to_collision (neuts st' ! nn)
           = neg_log_over_sig_t (nth_randf st (rand_calls st' - 1))
       \<and> u_n (neuts st' ! nn) = dir_src st (dir_calls st' - 1)
       \<and> \<not> is_neg (distance_to_collision (neuts st' ! nn))"
  using assms
proof (cases rule: collide_cases)
  case capture
  then show ?thesis
    using assms nth_randf_range [of st "Suc (rand_calls st)"]
    by (simp add: resample_eq neg_log_not_neg)
next
  case (fission s)
  from emit_frame [OF fission(3)] have nn: "nn < length (neuts s)"
    using assms by (simp add: fission_count_eq randf_eq)
  have src: "nth_randf s = nth_randf st"
    using emit_frame [OF fission(3)]
    by (intro ext) (simp add: nth_randf_def fission_count_eq randf_eq)
  have "dir_src s = dir_src st"
    using emit_frame [OF fission(3)] by (simp add: fission_count_eq randf_eq)
  then show ?thesis
    using fission(4) nn src nth_randf_range [of st "rand_calls s"]
    by (simp add: resample_eq neg_log_not_neg)
next
  case scatter
  then show ?thesis
    using assms nth_randf_range [of st "Suc (rand_calls st)"]
    by (simp add: resample_eq neg_log_not_neg)
qed


subsection \<open>One round of the pass\<close>

lemma step_cases:
  assumes "step nn dt st = Inr st'"
  obtains (dead) "\<not> alive (neuts st ! nn)" "st' = st"
  | (collision) s where "alive (neuts st ! nn)"
      "is_neg (distance_to_collision (neuts st ! nn))"
      "collide nn st = Inr s" "st' = move_one nn dt s"
  | (flight) "alive (neuts st ! nn)" "\<not> is_neg (distance_to_collision (neuts st ! nn))"
      "st' = move_one nn dt st"
  using assms by (auto simp: step_def split: if_splits sum.splits)

lemma step_length:
  assumes "step nn dt st = Inr st'" "nn < length (neuts st)"
  shows "length (neuts st) \<le> length (neuts st')"
  using assms(1)
proof (cases rule: step_cases)
  case (collision s)
  with collide_frame [OF collision(3) assms(2)] show ?thesis
    by (simp add: move_one_def)
qed (simp_all add: move_one_def)

lemma step_alive_kept:
  assumes "step nn dt st = Inr st'" "nn < length (neuts st)"
    "i < length (neuts st)" "alive (neuts st ! i)" "i \<noteq> nn"
  shows "neuts st' ! i = neuts st ! i"
  using assms(1)
proof (cases rule: step_cases)
  case (collision s)
  with collide_alive_kept [OF collision(3) assms(2-5)] assms(5) show ?thesis
    by (simp add: move_one_def)
qed (use assms(5) in \<open>auto simp: move_one_def\<close>)

lemma step_new:
  assumes "step nn dt st = Inr st'" "nn < length (neuts st)"
    "length (neuts st) \<le> i" "i < length (neuts st')"
  shows "alive (neuts st' ! i) \<and> \<not> is_neg (distance_to_collision (neuts st' ! i))"
  using assms(1)
proof (cases rule: step_cases)
  case dead
  with assms show ?thesis by simp
next
  case (collision s)
  have "i \<noteq> nn" "i < length (neuts s)"
    using assms collision(4) by (simp_all add: move_one_def)
  with collide_new [OF collision(3) assms(2) collision(1) assms(3)] collision(4)
  show ?thesis
    by (simp add: move_one_def)
next
  case flight
  with assms show ?thesis by (simp add: move_one_def)
qed

subsection \<open>The pass\<close>

lemma move_from_length:
  "move_from nn dt st = Inr st' \<Longrightarrow> length (neuts st) \<le> length (neuts st')"
proof (induction nn dt st rule: move_from.induct)
  case (1 nn dt st)
  show ?case
  proof (cases "nn < length (neuts st)")
    case False
    with "1.prems" show ?thesis by simp
  next
    case True
    with "1.prems" obtain s where s: "step nn dt st = Inr s" and small: "\<not> INT_MAX \<le> nn"
      and rest: "move_from (Suc nn) dt s = Inr st'"
      by (auto split: sum.splits if_splits)
    from "1.IH" [OF True s small rest] step_length [OF s True] show ?thesis
      by simp
  qed
qed

text \<open>A live particle behind the cursor is not touched by the rest of the pass.\<close>

lemma move_from_behind:
  "move_from nn dt st = Inr st' \<Longrightarrow> i < nn \<Longrightarrow> i < length (neuts st) \<Longrightarrow>
   alive (neuts st ! i) \<Longrightarrow> neuts st' ! i = neuts st ! i"
proof (induction nn dt st rule: move_from.induct)
  case (1 nn dt st)
  show ?case
  proof (cases "nn < length (neuts st)")
    case False
    with "1.prems" show ?thesis by simp
  next
    case True
    with "1.prems" obtain s where s: "step nn dt st = Inr s" and small: "\<not> INT_MAX \<le> nn"
      and rest: "move_from (Suc nn) dt s = Inr st'"
      by (auto split: sum.splits if_splits)
    have same: "neuts s ! i = neuts st ! i"
      using step_alive_kept [OF s True, of i] "1.prems" by simp
    have "i < length (neuts s)"
      using step_length [OF s True] "1.prems" by simp
    with "1.IH" [OF True s small rest] same "1.prems" show ?thesis
      by simp
  qed
qed

text \<open>
  A live particle at or ahead of the cursor whose distance is not negative makes exactly one
  flight in the rest of the pass, and no collision.
\<close>

lemma move_from_ahead:
  "move_from nn dt st = Inr st' \<Longrightarrow> nn \<le> i \<Longrightarrow> i < length (neuts st) \<Longrightarrow>
   alive (neuts st ! i) \<Longrightarrow> \<not> is_neg (distance_to_collision (neuts st ! i)) \<Longrightarrow>
   neuts st' ! i = advance dt (neuts st ! i)"
proof (induction nn dt st rule: move_from.induct)
  case (1 nn dt st)
  from "1.prems" have True: "nn < length (neuts st)" by simp
  with "1.prems" obtain s where s: "step nn dt st = Inr s" and small: "\<not> INT_MAX \<le> nn"
    and rest: "move_from (Suc nn) dt s = Inr st'"
    by (auto split: sum.splits if_splits)
  have len: "i < length (neuts s)"
    using step_length [OF s True] "1.prems" by simp
  show ?case
  proof (cases "i = nn")
    case True
    with s "1.prems" have "s = move_one i dt st"
      by (simp add: step_def)
    then have "neuts s ! i = advance dt (neuts st ! i)"
      using "1.prems" by (simp add: move_one_def)
    moreover have "alive (advance dt (neuts st ! i))"
      using "1.prems" by (simp add: advance_def Let_def)
    ultimately show ?thesis
      using move_from_behind [OF rest, of i] len True by simp
  next
    case False
    have "neuts s ! i = neuts st ! i"
      using step_alive_kept [OF s True, of i] "1.prems" False by simp
    with "1.IH" [OF True s small rest] "1.prems" False len show ?thesis
      by simp
  qed
qed

lemma live_count_flags: "live_count xs = length (filter (\<lambda>b. b) (map alive xs))"
  by (simp add: live_count_def filter_map comp_def)

subsection \<open>Room for the secondaries\<close>

lemma live_count_le: "live_count xs \<le> length xs"
  by (simp add: live_count_def)

lemma live_count_append: "live_count (xs @ ys) = live_count xs + live_count ys"
  by (simp add: live_count_def)

lemma live_count_revive:
  "j < length xs \<Longrightarrow> \<not> alive (xs ! j) \<Longrightarrow> alive n \<Longrightarrow>
   live_count (xs[j := n]) = Suc (live_count xs)"
proof (induction xs arbitrary: j)
  case Nil
  then show ?case by simp
next
  case (Cons p ps)
  then show ?case
    by (cases j) (auto simp: live_count_def)
qed

lemma first_dead_None_full: "first_dead xs = None \<Longrightarrow> live_count xs = length xs"
proof (induction xs)
  case Nil
  then show ?case by (simp add: live_count_def)
next
  case (Cons p ps)
  then show ?case
    by (auto simp: live_count_def split: if_splits)
qed

lemma emit_one_live:
  assumes "emit_one nn st = Inr (st', True)" "nn < length (neuts st)" "alive (neuts st ! nn)"
  shows "live_count (neuts st') = Suc (live_count (neuts st))"
  using assms(1)
proof (cases rule: emit_one_cases)
  case (reuse j)
  then have "j < length (neuts st)" "\<not> alive (neuts st ! j)"
    by (simp_all add: first_dead_Some)
  with reuse assms show ?thesis
    by (simp add: reuse_slot_eq live_count_revive)
next
  case push
  with assms show ?thesis
    by (simp add: push_copy_eq live_count_append) (simp add: live_count_def)
qed

lemma emit_live:
  assumes "emit k nn st = Inr st'" "nn < length (neuts st)" "alive (neuts st ! nn)"
  shows "live_count (neuts st') = live_count (neuts st) + k"
  using assms
proof (induction k arbitrary: st)
  case 0
  then show ?case by simp
next
  case (Suc k)
  from Suc.prems obtain s1 where one: "emit_one nn st = Inr (s1, True)" and rest: "emit k nn s1 = Inr st'"
    by (auto split: sum.splits prod.splits if_splits)
  have "nn < length (neuts s1)" "alive (neuts s1 ! nn)"
    using emit_one_frame(1) [OF one] emit_one_alive_kept [OF one, of nn] Suc.prems by simp_all
  from Suc.IH [OF rest this] emit_one_live [OF one Suc.prems(2,3)] show ?case
    by simp
qed

lemma emit_bound:
  assumes "emit k nn st = Inr st'"
  shows "length (neuts st') \<le> max (length (neuts st)) (capacity st)"
  using assms
proof (induction k arbitrary: st)
  case 0
  then show ?case by simp
next
  case (Suc k)
  from Suc.prems obtain s1 where one: "emit_one nn st = Inr (s1, True)" and rest: "emit k nn s1 = Inr st'"
    by (auto split: sum.splits prod.splits if_splits)
  from Suc.IH [OF rest] emit_one_frame(2,7) [OF one] show ?case
    by simp
qed

text \<open>
  The emission loop returns when the dead elements and the spare capacity together have room
  for the secondaries.
\<close>

lemma emit_completes:
  assumes "k \<le> (length (neuts st) - live_count (neuts st)) + (capacity st - length (neuts st))"
    "length (neuts st) \<le> capacity st" "capacity st \<le> INT_MAX"
    "nn < length (neuts st)" "alive (neuts st ! nn)"
  shows "\<exists>st'. emit k nn st = Inr st'"
  using assms
proof (induction k arbitrary: st)
  case 0
  then show ?case by simp
next
  case (Suc k)
  have "\<exists>s1. emit_one nn st = Inr (s1, True)"
  proof (cases "first_dead (neuts st)")
    case None
    with Suc.prems first_dead_None_full [OF None] show ?thesis
      by (simp add: emit_one_def)
  next
    case (Some j)
    then have "j < length (neuts st)"
      by (simp add: first_dead_Some)
    with Some Suc.prems show ?thesis
      by (simp add: emit_one_def)
  qed
  then obtain s1 where one: "emit_one nn st = Inr (s1, True)" ..
  have live: "live_count (neuts s1) = Suc (live_count (neuts st))"
    by (rule emit_one_live [OF one Suc.prems(4,5)])
  have cap: "capacity s1 = capacity st" and len: "length (neuts st) \<le> length (neuts s1)"
    and bound: "length (neuts s1) \<le> max (length (neuts st)) (capacity st)"
    using emit_one_frame [OF one] by simp_all
  have same: "neuts s1 ! nn = neuts st ! nn"
    using emit_one_alive_kept [OF one Suc.prems(4,5)] .
  have "live_count (neuts st) \<le> length (neuts st)"
    by (rule live_count_le)
  with Suc.prems live cap len bound
  have "k \<le> (length (neuts s1) - live_count (neuts s1)) + (capacity s1 - length (neuts s1))"
    "length (neuts s1) \<le> capacity s1" "capacity s1 \<le> INT_MAX" "nn < length (neuts s1)"
    by (simp_all add: max_def)
  from Suc.IH [OF this] same Suc.prems(5) obtain st' where "emit k nn s1 = Inr st'"
    by auto
  with one show ?case
    by simp
qed

lemma step_completes:
  assumes "2 \<le> (length (neuts st) - live_count (neuts st)) + (capacity st - length (neuts st))"
    "length (neuts st) \<le> capacity st" "capacity st \<le> INT_MAX" "nn < length (neuts st)"
  shows "\<exists>st'. step nn dt st = Inr st'"
proof (cases "alive (neuts st ! nn) \<and> is_neg (distance_to_collision (neuts st ! nn))")
  case False
  then show ?thesis
    by (auto simp: step_def)
next
  case True
  let ?s = "snd (fission_count (snd (randf st)))"
  let ?k = "fst (fission_count (snd (randf st)))"
  have s: "?s = st\<lparr>rand_calls := Suc (Suc (rand_calls st))\<rparr>" and k: "?k \<le> 2"
    by (simp_all add: fission_count_eq randf_eq)
  have "\<exists>s'. emit ?k nn ?s = Inr s'"
    using assms True k unfolding s by (intro emit_completes) simp_all
  then obtain s' where "emit ?k nn ?s = Inr s'" ..
  then have "\<exists>s''. collide nn st = Inr s''"
    by (simp add: collide_def case_prod_beta)
  with True show ?thesis
    by (auto simp: step_def)
qed

text \<open>
  A fission that completes: the parent stays alive where it was, and the live particles are
  one or two more; every element that is new or was dead and is now alive carries the
  parent's position and colour.
\<close>

lemma emit_one_copy:
  assumes "emit_one nn st = Inr (st', True)" "i < length (neuts st')"
    "i < length (neuts st) \<longrightarrow> neuts st' ! i \<noteq> neuts st ! i"
  shows "r_n (neuts st' ! i) = r_n (neuts st ! nn) \<and> c_n (neuts st' ! i) = c_n (neuts st ! nn)
       \<and> alive (neuts st' ! i) = alive (neuts st ! nn)"
  using assms
  by (auto elim!: emit_one_cases
      simp: first_dead_Some reuse_slot_eq push_copy_eq nth_append nth_list_update less_Suc_eq
      split: if_splits)


lemma emit_copy:
  assumes "emit k nn st = Inr st'" "nn < length (neuts st)" "alive (neuts st ! nn)"
    "i < length (neuts st')" "i < length (neuts st) \<longrightarrow> neuts st' ! i \<noteq> neuts st ! i"
  shows "r_n (neuts st' ! i) = r_n (neuts st ! nn) \<and> c_n (neuts st' ! i) = c_n (neuts st ! nn)
       \<and> alive (neuts st' ! i)"
  using assms
proof (induction k arbitrary: st)
  case 0
  then show ?case by simp
next
  case (Suc k)
  from Suc.prems obtain s1 where one: "emit_one nn st = Inr (s1, True)" and rest: "emit k nn s1 = Inr st'"
    by (auto split: sum.splits prod.splits if_splits)
  have len: "length (neuts st) \<le> length (neuts s1)"
    by (rule emit_one_frame(1) [OF one])
  have parent: "nn < length (neuts s1)" "alive (neuts s1 ! nn)" "neuts s1 ! nn = neuts st ! nn"
    using len Suc.prems emit_one_alive_kept [OF one, of nn] by simp_all
  show ?case
  proof (cases "i < length (neuts s1) \<and> (i < length (neuts st) \<longrightarrow> neuts s1 ! i \<noteq> neuts st ! i)")
    case True
    with emit_one_copy [OF one, of i] Suc.prems
    have copy: "r_n (neuts s1 ! i) = r_n (neuts st ! nn) \<and> c_n (neuts s1 ! i) = c_n (neuts st ! nn)
       \<and> alive (neuts s1 ! i)"
      by simp
    then have "neuts st' ! i = neuts s1 ! i"
      using emit_alive_kept [OF rest, of i] True by simp
    with copy show ?thesis by simp
  next
    case False
    then have "i < length (neuts s1) \<longrightarrow> neuts st' ! i \<noteq> neuts s1 ! i"
      using Suc.prems len by auto
    from Suc.IH [OF rest parent(1,2) Suc.prems(4) this] parent(3) show ?thesis
      by simp
  qed
qed

lemma live_count_same_flags: "map alive xs = map alive ys \<Longrightarrow> live_count xs = live_count ys"
  by (simp add: live_count_flags)

lemma fission_that_completes:
  assumes "nn < length (neuts st)" "alive (neuts st ! nn)"
    "\<not> fst (randf st) < sig_c / sig_t" "fst (randf st) < (sig_c + sig_f) / sig_t"
    "collide nn st = Inr st'"
  shows "alive (neuts st' ! nn) \<and> r_n (neuts st' ! nn) = r_n (neuts st ! nn)
       \<and> c_n (neuts st' ! nn) = c_n (neuts st ! nn)
       \<and> (live_count (neuts st') = live_count (neuts st) + 1
            \<or> live_count (neuts st') = live_count (neuts st) + 2)
       \<and> (\<forall>i<length (neuts st'). i \<noteq> nn \<longrightarrow>
             i < length (neuts st) \<and> neuts st' ! i = neuts st ! i
             \<or> alive (neuts st' ! i) \<and> r_n (neuts st' ! i) = r_n (neuts st ! nn)
                \<and> c_n (neuts st' ! i) = c_n (neuts st ! nn))"
  using assms(5,1)
proof (cases rule: collide_cases)
  case capture
  from capture(1) assms(3) show ?thesis by contradiction
next
  case scatter
  from assms(4) scatter(1) show ?thesis by contradiction
next
  case (fission s)
  let ?s0 = "snd (fission_count (snd (randf st)))"
  let ?k = "fst (fission_count (snd (randf st)))"
  have s0: "neuts ?s0 = neuts st"
    by (simp add: fission_count_eq randf_eq)
  have k: "?k = 1 \<or> ?k = 2"
    by (simp add: fission_count_eq)
  have nn: "nn < length (neuts s)" and same: "neuts s ! nn = neuts st ! nn"
    using emit_frame [OF fission(3)] emit_alive_kept [OF fission(3), of nn] assms s0 by simp_all
  have live: "live_count (neuts s) = live_count (neuts st) + ?k"
    using emit_live [OF fission(3)] assms s0 by simp
  have flags: "map alive (neuts st') = map alive (neuts s)"
    using fission(4) nn by (simp add: resample_eq map_update list_update_same_conv)
  have others: "i < length (neuts st) \<and> neuts s ! i = neuts st ! i
             \<or> alive (neuts s ! i) \<and> r_n (neuts s ! i) = r_n (neuts st ! nn)
                \<and> c_n (neuts s ! i) = c_n (neuts st ! nn)"
    if "i < length (neuts s)" for i
  proof (cases "i < length (neuts st) \<and> neuts s ! i = neuts st ! i")
    case True
    then show ?thesis by simp
  next
    case False
    then have changed: "i < length (neuts ?s0) \<longrightarrow> neuts s ! i \<noteq> neuts ?s0 ! i"
      by (simp only: s0) blast
    have parent: "nn < length (neuts ?s0)" "alive (neuts ?s0 ! nn)"
      using assms(1,2) by (simp_all only: s0)
    from emit_copy [OF fission(3) parent that changed] show ?thesis
      by (simp only: s0) blast
  qed
  have at: "neuts st' ! i = neuts s ! i" if "i \<noteq> nn" for i
    using fission(4) nn that by (simp add: resample_eq)
  have len: "length (neuts st') = length (neuts s)"
    using fission(4) nn by (simp add: resample_eq)
  have self: "alive (neuts st' ! nn) \<and> r_n (neuts st' ! nn) = r_n (neuts st ! nn)
       \<and> c_n (neuts st' ! nn) = c_n (neuts st ! nn)"
    using fission(4) nn same assms by (simp add: resample_eq)
  from live k live_count_same_flags [OF flags]
  have count: "live_count (neuts st') = live_count (neuts st) + 1
            \<or> live_count (neuts st') = live_count (neuts st) + 2"
    by auto
  have rest: "\<forall>i<length (neuts st'). i \<noteq> nn \<longrightarrow>
             i < length (neuts st) \<and> neuts st' ! i = neuts st ! i
             \<or> alive (neuts st' ! i) \<and> r_n (neuts st' ! i) = r_n (neuts st ! nn)
                \<and> c_n (neuts st' ! i) = c_n (neuts st ! nn)"
  proof (intro allI impI)
    fix i
    assume "i < length (neuts st')" "i \<noteq> nn"
    with others [of i] at [of i] len show "i < length (neuts st) \<and> neuts st' ! i = neuts st ! i
             \<or> alive (neuts st' ! i) \<and> r_n (neuts st' ! i) = r_n (neuts st ! nn)
                \<and> c_n (neuts st' ! i) = c_n (neuts st ! nn)"
      by simp
  qed
  from self count rest show ?thesis
    by (simp only: simp_thms)
qed

subsection \<open>A pass with room for its secondaries returns\<close>

text \<open>
  What a round changes, besides its own particle, ends alive with a distance that is not
  negative.
\<close>

lemma emit_one_touch:
  assumes "emit_one nn st = Inr (st', True)" "nn < length (neuts st)" "alive (neuts st ! nn)"
    "i < length (neuts st')"
  shows "i < length (neuts st) \<and> neuts st' ! i = neuts st ! i \<or> \<not> due (neuts st' ! i)"
proof (cases "i < length (neuts st) \<and> alive (neuts st ! i)")
  case True
  with emit_one_alive_kept [OF assms(1), of i] show ?thesis by simp
next
  case False
  with emit_one_changed [OF assms(1,2,3,4)] show ?thesis
    by (auto simp: due_def)
qed

lemma emit_touch:
  assumes "emit k nn st = Inr st'" "nn < length (neuts st)" "alive (neuts st ! nn)"
    "i < length (neuts st')"
  shows "i < length (neuts st) \<and> neuts st' ! i = neuts st ! i \<or> \<not> due (neuts st' ! i)"
  using assms
proof (induction k arbitrary: st)
  case 0
  then show ?case by simp
next
  case (Suc k)
  from Suc.prems obtain s1 where one: "emit_one nn st = Inr (s1, True)" and rest: "emit k nn s1 = Inr st'"
    by (auto split: sum.splits prod.splits if_splits)
  have parent: "nn < length (neuts s1)" "alive (neuts s1 ! nn)"
    using emit_one_frame(1) [OF one] Suc.prems emit_one_alive_kept [OF one, of nn] by simp_all
  from Suc.IH [OF rest parent Suc.prems(4)]
  consider "i < length (neuts s1)" "neuts st' ! i = neuts s1 ! i" | "\<not> due (neuts st' ! i)"
    by blast
  then show ?case
  proof cases
    case 1
    with emit_one_touch [OF one Suc.prems(2,3), of i] show ?thesis by auto
  next
    case 2
    then show ?thesis by simp
  qed
qed

lemma step_touch:
  assumes "step nn dt st = Inr st'" "nn < length (neuts st)" "i < length (neuts st')" "i \<noteq> nn"
  shows "i < length (neuts st) \<and> neuts st' ! i = neuts st ! i \<or> \<not> due (neuts st' ! i)"
  using assms(1)
proof (cases rule: step_cases)
  case dead
  with assms show ?thesis by simp
next
  case flight
  with assms show ?thesis by (simp add: move_one_def)
next
  case (collision s)
  have at: "neuts st' ! i = neuts s ! i" and len: "length (neuts st') = length (neuts s)"
    using collision(4) assms(4) by (simp_all add: move_one_def)
  from collision(3) assms(2) show ?thesis
  proof (cases rule: collide_cases)
    case capture
    with assms at len show ?thesis by (simp add: resample_eq)
  next
    case scatter
    with assms at len show ?thesis by (simp add: resample_eq)
  next
    case (fission s2)
    let ?s0 = "snd (fission_count (snd (randf st)))"
    have s0: "neuts ?s0 = neuts st"
      by (simp add: fission_count_eq randf_eq)
    have parent: "nn < length (neuts ?s0)" "alive (neuts ?s0 ! nn)"
      using assms(2) collision(1) by (simp_all only: s0)
    have nn: "nn < length (neuts s2)"
      using emit_frame [OF fission(3)] assms(2) s0 by simp
    have i2: "i < length (neuts s2)" and at2: "neuts s ! i = neuts s2 ! i"
      using fission(4) nn assms(3,4) len by (simp_all add: resample_eq)
    from emit_touch [OF fission(3) parent i2] at at2 show ?thesis
      by (simp add: s0)
  qed
qed

text \<open>What a round does to the number of live particles and to the capacity.\<close>

lemma step_room:
  assumes "step nn dt st = Inr st'" "nn < length (neuts st)"
  shows "capacity st' = capacity st
       \<and> length (neuts st') \<le> max (length (neuts st)) (capacity st)
       \<and> live_count (neuts st') \<le> live_count (neuts st) + (if due (neuts st ! nn) then 2 else 0)"
  using assms(1)
proof (cases rule: step_cases)
  case dead
  then show ?thesis by simp
next
  case flight
  have "map alive (neuts st') = map alive (neuts st)"
    using flight assms(2)
    by (simp add: move_one_def map_update advance_def Let_def list_update_same_conv)
  from live_count_same_flags [OF this] flight show ?thesis
    by (simp add: move_one_def)
next
  case (collision s)
  have flags: "map alive (neuts st') = map alive (neuts s)"
    using collision(4) collide_frame [OF collision(3) assms(2)] assms(2)
    by (simp add: move_one_def map_update advance_def Let_def list_update_same_conv)
  have cap: "capacity st' = capacity s" "length (neuts st') = length (neuts s)"
    using collision(4) by (simp_all add: move_one_def)
  have due: "due (neuts st ! nn)"
    using collision(1,2) by (simp add: due_def)
  have "capacity s = capacity st
       \<and> length (neuts s) \<le> max (length (neuts st)) (capacity st)
       \<and> live_count (neuts s) \<le> live_count (neuts st) + 2"
    using collision(3) assms(2)
  proof (cases rule: collide_cases)
    case capture
    have "Suc (live_count ((neuts st)[nn := (neuts st ! nn)\<lparr>alive := False\<rparr>]))
        = live_count (neuts st)"
      by (rule live_count_kill [OF assms(2) collision(1)])
    moreover have "map alive (neuts s)
        = map alive ((neuts st)[nn := (neuts st ! nn)\<lparr>alive := False\<rparr>])"
      using capture(2) assms(2) by (simp add: resample_eq map_update)
    ultimately have "live_count (neuts s) \<le> live_count (neuts st)"
      using live_count_same_flags [of "neuts s"] by simp
    with capture(2) assms(2) show ?thesis
      by (simp add: resample_eq)
  next
    case scatter
    have "map alive (neuts s) = map alive (neuts st)"
      using scatter(2) assms(2) by (simp add: resample_eq map_update list_update_same_conv)
    from live_count_same_flags [OF this] scatter(2) assms(2) show ?thesis
      by (simp add: resample_eq)
  next
    case (fission s2)
    let ?s0 = "snd (fission_count (snd (randf st)))"
    let ?k = "fst (fission_count (snd (randf st)))"
    have s0: "neuts ?s0 = neuts st" "capacity ?s0 = capacity st" and k: "?k \<le> 2"
      by (simp_all add: fission_count_eq randf_eq)
    have parent: "nn < length (neuts ?s0)" "alive (neuts ?s0 ! nn)"
      using assms(2) collision(1) by (simp_all only: s0)
    have nn: "nn < length (neuts s2)"
      using emit_frame [OF fission(3)] assms(2) s0 by simp
    have live: "live_count (neuts s2) = live_count (neuts st) + ?k"
      using emit_live [OF fission(3) parent] by (simp only: s0)
    have len: "length (neuts s2) \<le> max (length (neuts st)) (capacity st)"
      using emit_bound [OF fission(3)] by (simp only: s0)
    have cap2: "capacity s2 = capacity st"
      using emit_frame [OF fission(3)] by (simp only: s0)
    have "map alive (neuts s) = map alive (neuts s2)"
      using fission(4) nn by (simp add: resample_eq map_update list_update_same_conv)
    from live_count_same_flags [OF this] live k len cap2 fission(4) nn show ?thesis
      by (simp add: resample_eq)
  qed
  with live_count_same_flags [OF flags] cap due show ?thesis
    by simp
qed


lemma filter_count_mono:
  assumes "\<And>i. i < length ys \<Longrightarrow> P (ys ! i) \<Longrightarrow> i < length xs \<and> P (xs ! i)"
  shows "length (filter P ys) \<le> length (filter P xs)"
proof -
  have "{i. i < length ys \<and> P (ys ! i)} \<subseteq> {i. i < length xs \<and> P (xs ! i)}"
    using assms by blast
  then have "card {i. i < length ys \<and> P (ys ! i)} \<le> card {i. i < length xs \<and> P (xs ! i)}"
    by (intro card_mono) simp_all
  then show ?thesis
    by (simp only: length_filter_conv_card)
qed

lemma due_count_drop:
  "nn < length xs \<Longrightarrow>
   due_count (drop nn xs) = (if due (xs ! nn) then 1 else 0) + due_count (drop (Suc nn) xs)"
  by (simp add: due_count_def Cons_nth_drop_Suc [symmetric])

lemma step_due_ahead:
  assumes "step nn dt st = Inr st'" "nn < length (neuts st)"
  shows "due_count (drop (Suc nn) (neuts st')) \<le> due_count (drop (Suc nn) (neuts st))"
  unfolding due_count_def
proof (rule filter_count_mono)
  fix i
  assume i: "i < length (drop (Suc nn) (neuts st'))" and d: "due (drop (Suc nn) (neuts st') ! i)"
  have len: "length (neuts st) \<le> length (neuts st')"
    by (rule step_length [OF assms])
  from i have j: "Suc nn + i < length (neuts st')"
    by simp
  with d have d': "due (neuts st' ! (Suc nn + i))"
    by simp
  from step_touch [OF assms j] d'
  have "Suc nn + i < length (neuts st)" "neuts st' ! (Suc nn + i) = neuts st ! (Suc nn + i)"
    by simp_all
  with d' show "i < length (drop (Suc nn) (neuts st)) \<and> due (drop (Suc nn) (neuts st) ! i)"
    by simp
qed

lemma move_from_completes:
  assumes "live_count (neuts st) + 2 * due_count (drop nn (neuts st)) \<le> capacity st"
    "length (neuts st) \<le> capacity st" "capacity st \<le> INT_MAX"
  shows "\<exists>st'. move_from nn dt st = Inr st'"
  using assms
proof (induction nn dt st rule: move_from.induct)
  case (1 nn dt st)
  show ?case
  proof (cases "nn < length (neuts st)")
    case False
    then show ?thesis by simp
  next
    case True
    have small: "\<not> INT_MAX \<le> nn"
      using True "1.prems" by simp
    have live: "live_count (neuts st) \<le> length (neuts st)"
      by (rule live_count_le)
    have split: "due_count (drop nn (neuts st))
        = (if due (neuts st ! nn) then 1 else 0) + due_count (drop (Suc nn) (neuts st))"
      by (rule due_count_drop [OF True])
    have "\<exists>s. step nn dt st = Inr s"
    proof (cases "due (neuts st ! nn)")
      case False
      then show ?thesis
        by (auto simp: step_def due_def)
    next
      case due: True
      with split "1.prems" live
      have "2 \<le> (length (neuts st) - live_count (neuts st)) + (capacity st - length (neuts st))"
        by simp
      from step_completes [OF this "1.prems"(2,3) True] show ?thesis .
    qed
    then obtain s where s: "step nn dt st = Inr s" ..
    from step_room [OF s True] "1.prems"(2)
    have cap: "capacity s = capacity st" and len: "length (neuts s) \<le> capacity st"
      and more: "live_count (neuts s)
          \<le> live_count (neuts st) + (if due (neuts st ! nn) then 2 else 0)"
      by (simp_all add: max_def)
    from step_due_ahead [OF s True] split more "1.prems"(1)
    have "live_count (neuts s) + 2 * due_count (drop (Suc nn) (neuts s)) \<le> capacity s"
      by (simp add: cap split: if_splits)
    from "1.IH" [OF True s small this] len cap "1.prems"(3)
    obtain st' where "move_from (Suc nn) dt s = Inr st'"
      by auto
    with True s small show ?thesis
      by simp
  qed
qed

text \<open>
  The pass returns when the capacity has room, beside the live particles, for two
  secondaries of every particle whose collision is due.
\<close>

lemma move_neutrons_completes:
  assumes "live_count (neuts st) + 2 * due_count (neuts st) \<le> capacity st"
    "length (neuts st) \<le> capacity st" "capacity st \<le> INT_MAX"
  shows "\<exists>st'. move_neutrons dt st = Inr st'"
  using move_from_completes [of st 0 dt] assms by (simp add: move_neutrons_def)

subsection \<open>Evaluation on the example states\<close>

lemma emit_numeral:
  "emit (numeral k) nn st =
     (case emit_one nn st of
        Inl e \<Rightarrow> Inl e
      | Inr (st', valid) \<Rightarrow> if valid then emit (pred_numeral k) nn st' else Inl DanglingReference)"
  by (simp add: numeral_eq_Suc)

lemmas ex_defs = ex_world_def grow_libstdcxx_def hot_def cold_def north_def south_def zero_Neutron_def
lemmas run_defs = emit_numeral step_def collide_def fission_count_def emit_one_def reuse_slot_def push_copy_def
  resample_def move_one_def advance_def randf_def rand_def sample_def neg_log_over_sig_t_def
  scale_def plus_pos_def
lemmas const_defs = nu_def sig_s_def sig_c_def sig_f_def sig_t_def vel_def RAND_MAX_def INT_MAX_def

section \<open>Properties of \<^verbatim>\<open>initialize_neutrons\<close>\<close>

subsection \<open>The integer square root\<close>

lemma sqrt_floor_from_spec:
  "sqrt_floor_from k n \<le> k \<and> sqrt_floor_from k n * sqrt_floor_from k n \<le> n
   \<and> (\<forall>m. sqrt_floor_from k n < m \<and> m \<le> k \<longrightarrow> n < m * m)"
proof (induction k)
  case 0
  then show ?case by auto
next
  case (Suc k)
  show ?case
  proof (cases "Suc k * Suc k \<le> n")
    case True
    then show ?thesis by simp
  next
    case False
    have "n < m * m" if "sqrt_floor_from k n < m" "m \<le> Suc k" for m
    proof (cases "m = Suc k")
      case True
      with False show ?thesis by simp
    next
      case False
      with that Suc.IH show ?thesis by simp
    qed
    with False Suc.IH show ?thesis
      by (simp add: le_SucI)
  qed
qed

lemma sqrt_floor_bounds:
  "sqrt_floor n * sqrt_floor n \<le> n \<and> n < Suc (sqrt_floor n) * Suc (sqrt_floor n)"
proof -
  let ?r = "sqrt_floor_from n n"
  have low: "?r * ?r \<le> n"
    using sqrt_floor_from_spec [of n n] by simp
  have "n < Suc ?r * Suc ?r"
  proof (cases "Suc ?r \<le> n")
    case True
    with sqrt_floor_from_spec [of n n] show ?thesis
      by (metis lessI)
  next
    case False
    then have "n < Suc ?r" by simp
    also have "Suc ?r \<le> Suc ?r * Suc ?r" by simp
    finally show ?thesis .
  qed
  with low show ?thesis
    by (simp add: sqrt_floor_def)
qed

lemma sqrt_floor_eqI:
  assumes "r * r \<le> n" "n < Suc r * Suc r"
  shows "sqrt_floor n = r"
proof (rule ccontr)
  assume ne: "sqrt_floor n \<noteq> r"
  let ?s = "sqrt_floor n"
  from sqrt_floor_bounds [of n] have s: "?s * ?s \<le> n" "n < Suc ?s * Suc ?s"
    by simp_all
  from ne consider "?s < r" | "r < ?s"
    by linarith
  then show False
  proof cases
    case 1
    then have "Suc ?s \<le> r" by simp
    then have "Suc ?s * Suc ?s \<le> r * r"
      by (simp only: mult_le_mono)
    with s(2) assms(1) show False by simp
  next
    case 2
    then have "Suc r \<le> ?s" by simp
    then have "Suc r * Suc r \<le> ?s * ?s"
      by (simp only: mult_le_mono)
    with s(1) assms(2) show False by simp
  qed
qed

text \<open>The search returns the truncated real square root, also of the unrounded half.\<close>

lemma sqrt_floor_real: "sqrt_floor n = nat \<lfloor>sqrt (real n)\<rfloor>"
proof -
  let ?r = "sqrt_floor n"
  from sqrt_floor_bounds [of n] have "real (?r * ?r) \<le> real n" "real n < real (Suc ?r * Suc ?r)"
    by (simp_all only: of_nat_le_iff of_nat_less_iff)
  then have "(real ?r)\<^sup>2 \<le> real n" "real n < (real ?r + 1)\<^sup>2"
    by (simp_all add: power2_eq_square algebra_simps)
  then have "real ?r \<le> sqrt (real n)" "sqrt (real n) < real ?r + 1"
    by (simp_all add: real_le_rsqrt real_less_lsqrt)
  then have "\<lfloor>sqrt (real n)\<rfloor> = int ?r"
    by (simp add: floor_unique)
  then show ?thesis by simp
qed

lemma sqrt_floor_half: "sqrt_floor (n div 2) = nat \<lfloor>sqrt (real n / 2)\<rfloor>"
proof -
  let ?r = "sqrt_floor (n div 2)"
  from sqrt_floor_bounds [of "n div 2"]
  have b: "?r * ?r \<le> n div 2" "Suc (n div 2) \<le> Suc ?r * Suc ?r"
    by simp_all
  have "n = 2 * (n div 2) + n mod 2" "n mod 2 < 2"
    by simp_all
  then have "real n = 2 * real (n div 2) + real (n mod 2)" "real (n mod 2) < 2"
    by (metis of_nat_add of_nat_mult of_nat_numeral, simp)
  then have "real (n div 2) \<le> real n / 2" "real n / 2 < real (Suc (n div 2))"
    by simp_all
  moreover from b have "real (?r * ?r) \<le> real (n div 2)"
      "real (Suc (n div 2)) \<le> real (Suc ?r * Suc ?r)"
    by (simp_all only: of_nat_le_iff)
  ultimately have "real (?r * ?r) \<le> real n / 2" "real n / 2 < real (Suc ?r * Suc ?r)"
    by linarith+
  then have "(real ?r)\<^sup>2 \<le> real n / 2" "real n / 2 < (real ?r + 1)\<^sup>2"
    by (simp_all add: power2_eq_square algebra_simps)
  then have "real ?r \<le> sqrt (real n / 2)" "sqrt (real n / 2) < real ?r + 1"
    by (simp_all add: real_le_rsqrt real_less_lsqrt)
  then have "\<lfloor>sqrt (real n / 2)\<rfloor> = int ?r"
    by (simp add: floor_unique)
  then show ?thesis by simp
qed


subsection \<open>The grid loops\<close>


lemma random_color_frame:
  "neuts (snd (random_color st)) = neuts st \<and> capacity (snd (random_color st)) = capacity st
   \<and> dir_calls (snd (random_color st)) = dir_calls st
   \<and> rand_src (snd (random_color st)) = rand_src st
   \<and> dir_src (snd (random_color st)) = dir_src st"
  by (simp add: random_color_def rand_def Let_def)

lemma init_cell_length [simp]:
  "length (neuts (init_cell ncols dr dc row col st)) = length (neuts st)"
  by (simp add: init_cell_def Let_def sample_def case_prod_beta random_color_frame)

lemma init_cell_other:
  "k \<noteq> row * ncols + col \<Longrightarrow> neuts (init_cell ncols dr dc row col st) ! k = neuts st ! k"
  by (simp add: init_cell_def Let_def sample_def case_prod_beta random_color_frame)

lemma init_cell_self:
  assumes "row * ncols + col < length (neuts st)" "col < ncols"
  shows "placed ncols dr dc (row * ncols + col)
           (neuts (init_cell ncols dr dc row col st) ! (row * ncols + col))"
  using assms
  by (simp add: init_cell_def Let_def sample_def case_prod_beta random_color_frame placed_def)

lemma init_cell_placed:
  assumes "k < length (neuts st)" "col < ncols" "placed ncols dr dc k (neuts st ! k)"
  shows "placed ncols dr dc k (neuts (init_cell ncols dr dc row col st) ! k)"
proof (cases "k = row * ncols + col")
  case True
  with init_cell_self [of row ncols col st dr dc] assms show ?thesis by simp
next
  case False
  with assms init_cell_other [OF False] show ?thesis by simp
qed

subsection \<open>The loop over the columns of a row\<close>

lemma row_length [simp]:
  "length (neuts (fold (init_cell ncols dr dc row) cs st)) = length (neuts st)"
  by (induction cs arbitrary: st) simp_all

lemma row_placed:
  assumes "k < length (neuts st)" "\<forall>c\<in>set cs. c < ncols" "placed ncols dr dc k (neuts st ! k)"
  shows "placed ncols dr dc k (neuts (fold (init_cell ncols dr dc row) cs st) ! k)"
  using assms
proof (induction cs arbitrary: st)
  case Nil
  then show ?case by simp
next
  case (Cons c cs)
  have "placed ncols dr dc k (neuts (init_cell ncols dr dc row c st) ! k)"
    using Cons.prems by (intro init_cell_placed) simp_all
  with Cons.IH [of "init_cell ncols dr dc row c st"] Cons.prems show ?case
    by simp
qed

lemma row_places:
  assumes "col \<in> set cs" "\<forall>c\<in>set cs. c < ncols" "row * ncols + col < length (neuts st)"
  shows "placed ncols dr dc (row * ncols + col)
           (neuts (fold (init_cell ncols dr dc row) cs st) ! (row * ncols + col))"
  using assms
proof (induction cs arbitrary: st)
  case Nil
  then show ?case by simp
next
  case (Cons c cs)
  let ?s = "init_cell ncols dr dc row c st"
  show ?case
  proof (cases "c = col")
    case True
    have "placed ncols dr dc (row * ncols + col) (neuts ?s ! (row * ncols + col))"
      using Cons.prems True by (simp add: init_cell_self)
    with row_placed [of "row * ncols + col" ?s cs ncols dr dc row] Cons.prems show ?thesis
      by simp
  next
    case False
    with Cons.prems have "col \<in> set cs" by simp
    with Cons.IH [of ?s] Cons.prems show ?thesis by simp
  qed
qed

subsection \<open>The loop over the rows\<close>

lemma grid_length [simp]:
  "length (neuts (fold (\<lambda>row. fold (init_cell ncols dr dc row) cs) rs st)) = length (neuts st)"
  by (induction rs arbitrary: st) simp_all

lemma grid_placed:
  assumes "k < length (neuts st)" "\<forall>c\<in>set cs. c < ncols" "placed ncols dr dc k (neuts st ! k)"
  shows "placed ncols dr dc k
           (neuts (fold (\<lambda>row. fold (init_cell ncols dr dc row) cs) rs st) ! k)"
  using assms
proof (induction rs arbitrary: st)
  case Nil
  then show ?case by simp
next
  case (Cons r rs)
  have "placed ncols dr dc k (neuts (fold (init_cell ncols dr dc r) cs st) ! k)"
    using Cons.prems by (intro row_placed) simp_all
  with Cons.IH [of "fold (init_cell ncols dr dc r) cs st"] Cons.prems show ?case
    by simp
qed

lemma grid_places:
  assumes "row \<in> set rs" "col \<in> set cs" "\<forall>c\<in>set cs. c < ncols"
    "row * ncols + col < length (neuts st)"
  shows "placed ncols dr dc (row * ncols + col)
           (neuts (fold (\<lambda>row. fold (init_cell ncols dr dc row) cs) rs st) ! (row * ncols + col))"
  using assms
proof (induction rs arbitrary: st)
  case Nil
  then show ?case by simp
next
  case (Cons r rs)
  let ?s = "fold (init_cell ncols dr dc r) cs st"
  show ?case
  proof (cases "r = row")
    case True
    have "placed ncols dr dc (row * ncols + col) (neuts ?s ! (row * ncols + col))"
      using Cons.prems True by (simp add: row_places)
    with grid_placed [of "row * ncols + col" ?s cs ncols dr dc rs] Cons.prems show ?thesis
      by simp
  next
    case False
    with Cons.prems have "row \<in> set rs" by simp
    with Cons.IH [of ?s] Cons.prems show ?thesis by simp
  qed
qed

lemma grid_all_placed:
  assumes "k < nrows * ncols" "nrows * ncols \<le> length (neuts st)"
  shows "placed ncols dr dc k
           (neuts (fold (\<lambda>row. fold (init_cell ncols dr dc row) [0..<ncols]) [0..<nrows] st) ! k)"
proof -
  from assms(1) have pos: "0 < ncols"
    by (cases ncols) simp_all
  have row: "k div ncols < nrows"
    using assms(1) pos by (simp add: less_mult_imp_div_less)
  have col: "k mod ncols < ncols"
    using pos by simp
  have k: "k div ncols * ncols + k mod ncols = k"
    by simp
  from grid_places [of "k div ncols" "[0..<nrows]" "k mod ncols" "[0..<ncols]" ncols st dr dc]
    row col k assms show ?thesis
    by simp
qed

subsection \<open>The two calls of \<^verbatim>\<open>resize\<close> and the loop of line 113\<close>

lemma mark_dead_one_length [simp]:
  "length (neuts (mark_dead oldsize i st)) = length (neuts st)"
  by (simp add: mark_dead_def)

lemma mark_dead_one_low:
  "k < oldsize \<Longrightarrow> neuts (mark_dead oldsize i st) ! k = neuts st ! k"
  by (simp add: mark_dead_def)

lemma mark_dead_one_keeps:
  "k < length (neuts st) \<Longrightarrow> \<not> alive (neuts st ! k) \<Longrightarrow>
   \<not> alive (neuts (mark_dead oldsize i st) ! k)"
  by (cases "k = oldsize + i") (simp_all add: mark_dead_def)

lemma mark_dead_one_marks:
  "oldsize + i < length (neuts st) \<Longrightarrow> \<not> alive (neuts (mark_dead oldsize i st) ! (oldsize + i))"
  by (simp add: mark_dead_def)

lemma mark_dead_length [simp]:
  "length (neuts (fold (mark_dead oldsize) is st)) = length (neuts st)"
  by (induction "is" arbitrary: st) simp_all

lemma mark_dead_low:
  "k < oldsize \<Longrightarrow> neuts (fold (mark_dead oldsize) is st) ! k = neuts st ! k"
  by (induction "is" arbitrary: st) (simp_all add: mark_dead_one_low)

lemma mark_dead_keeps:
  "k < length (neuts st) \<Longrightarrow> \<not> alive (neuts st ! k) \<Longrightarrow>
   \<not> alive (neuts (fold (mark_dead oldsize) is st) ! k)"
  by (induction "is" arbitrary: st) (simp_all add: mark_dead_one_keeps)

lemma mark_dead_marks:
  assumes "i \<in> set is" "oldsize + i < length (neuts st)"
  shows "\<not> alive (neuts (fold (mark_dead oldsize) is st) ! (oldsize + i))"
  using assms
proof (induction "is" arbitrary: st)
  case Nil
  then show ?case by simp
next
  case (Cons j js)
  show ?case
  proof (cases "j = i")
    case True
    with Cons.prems show ?thesis
      by (simp add: mark_dead_keeps mark_dead_one_marks)
  next
    case False
    with Cons.prems have "i \<in> set js" by simp
    with Cons.IH [of "mark_dead oldsize j st"] Cons.prems show ?thesis
      by simp
  qed
qed

lemma resize_shrink:
  "n \<le> length (neuts st) \<Longrightarrow> resize grow n st = st\<lparr>neuts := take n (neuts st)\<rparr>"
  by (simp add: resize_def)

lemma resize_double:
  "neuts (resize grow (length (neuts st) * 2) st)
     = neuts st @ replicate (length (neuts st)) zero_Neutron"
  by (cases "neuts st = []") (simp_all add: resize_def)

lemma nrows_small:
  assumes "n < 1073790482"
  shows "sqrt_floor (n div 2) \<le> 23170"
proof (rule ccontr)
  assume "\<not> sqrt_floor (n div 2) \<le> 23170"
  then have "23171 \<le> sqrt_floor (n div 2)" by simp
  then have "23171 * 23171 \<le> sqrt_floor (n div 2) * sqrt_floor (n div 2)"
    by (intro mult_le_mono)
  with sqrt_floor_bounds [of "n div 2"] have "536895241 \<le> n div 2" by simp
  with assms show False by simp
qed

lemma grid_fits:
  "sqrt_floor (n div 2) * (2 * sqrt_floor (n div 2)) \<le> n"
proof -
  have "2 * (sqrt_floor (n div 2) * sqrt_floor (n div 2)) \<le> 2 * (n div 2)"
    using sqrt_floor_bounds [of "n div 2"] by simp
  then show ?thesis by simp
qed

lemma initialize_run:
  assumes "length (neuts st) < 1073790482"
  shows "initialize_neutrons grow st =
     (let nrows = sqrt_floor (length (neuts st) div 2); ncols = 2 * nrows;
          st2 = fold (\<lambda>row. fold (init_cell ncols (real (HEIGHT div (nrows + 1)))
                                      (real (WIDTH div (ncols + 1))) row) [0..<ncols])
                  [0..<nrows] (st\<lparr>neuts := take (nrows * ncols) (neuts st)\<rparr>)
      in Inr (fold (mark_dead (nrows * ncols)) [0..<nrows * ncols]
                (resize grow (nrows * ncols * 2) st2)))"
proof -
  let ?r = "sqrt_floor (length (neuts st) div 2)"
  have r: "?r \<le> 23170"
    by (rule nrows_small [OF assms])
  then have "?r * ?r \<le> 23170 * 23170"
    by (intro mult_le_mono)
  then have sq: "?r * ?r \<le> 536848900"
    by simp
  have fits: "?r * (2 * ?r) \<le> length (neuts st)"
    by (rule grid_fits)
  have a: "to_int ?r = Inr ?r" "to_int (2 * ?r) = Inr (2 * ?r)"
    "to_int (?r * (2 * ?r)) = Inr (?r * (2 * ?r))" "to_int (?r + 1) = Inr (?r + 1)"
    "to_int (2 * ?r + 1) = Inr (2 * ?r + 1)" "to_int (?r * (2 * ?r) * 2) = Inr (?r * (2 * ?r) * 2)"
    using r sq by (simp_all add: to_int_def INT_MAX_def)
  have len: "length (take (?r * (2 * ?r)) (neuts st)) = ?r * (2 * ?r)"
    using fits by simp
  show ?thesis
    using a fits len
    by (simp add: initialize_neutrons_def int_div_def resize_shrink Let_def)
qed

text \<open>The result of \<^verbatim>\<open>initialize_neutrons\<close> when no \<^verbatim>\<open>int\<close> overflows.\<close>

lemma initialize_layout:
  assumes "length (neuts st) < 1073790482"
  shows "\<exists>st'. initialize_neutrons grow st = Inr st'
     \<and> length (neuts st')
         = 2 * sqrt_floor (length (neuts st) div 2) * (2 * sqrt_floor (length (neuts st) div 2))
     \<and> (\<forall>k < sqrt_floor (length (neuts st) div 2) * (2 * sqrt_floor (length (neuts st) div 2)).
           placed (2 * sqrt_floor (length (neuts st) div 2))
             (real (HEIGHT div (sqrt_floor (length (neuts st) div 2) + 1)))
             (real (WIDTH div (2 * sqrt_floor (length (neuts st) div 2) + 1))) k (neuts st' ! k))
     \<and> (\<forall>k. sqrt_floor (length (neuts st) div 2) * (2 * sqrt_floor (length (neuts st) div 2)) \<le> k
            \<and> k < 2 * sqrt_floor (length (neuts st) div 2)
                    * (2 * sqrt_floor (length (neuts st) div 2))
            \<longrightarrow> \<not> alive (neuts st' ! k))"
proof -
  let ?r = "sqrt_floor (length (neuts st) div 2)"
  let ?c = "2 * ?r"
  let ?dr = "real (HEIGHT div (?r + 1))"
  let ?dc = "real (WIDTH div (?c + 1))"
  let ?s1 = "st\<lparr>neuts := take (?r * ?c) (neuts st)\<rparr>"
  let ?s2 = "fold (\<lambda>row. fold (init_cell ?c ?dr ?dc row) [0..<?c]) [0..<?r] ?s1"
  let ?s3 = "resize grow (?r * ?c * 2) ?s2"
  let ?s4 = "fold (mark_dead (?r * ?c)) [0..<?r * ?c] ?s3"
  have run: "initialize_neutrons grow st = Inr ?s4"
    using initialize_run [OF assms, of grow] by (simp add: Let_def)
  have len1: "length (neuts ?s1) = ?r * ?c"
    using grid_fits [of "length (neuts st)"] by simp
  then have len2: "length (neuts ?s2) = ?r * ?c"
    by simp
  have n3: "neuts ?s3 = neuts ?s2 @ replicate (?r * ?c) zero_Neutron"
    using resize_double [of grow ?s2] len2 by simp
  then have len4: "length (neuts ?s4) = 2 * ?r * ?c"
    using len2 by simp
  have low: "placed ?c ?dr ?dc k (neuts ?s4 ! k)" if "k < ?r * ?c" for k
  proof -
    have "placed ?c ?dr ?dc k (neuts ?s2 ! k)"
      using that len1 by (intro grid_all_placed) simp_all
    moreover have "neuts ?s4 ! k = neuts ?s2 ! k"
      using that n3 len2 by (simp add: mark_dead_low nth_append)
    ultimately show ?thesis by simp
  qed
  have high: "\<not> alive (neuts ?s4 ! k)" if "?r * ?c \<le> k" "k < 2 * ?r * ?c" for k
  proof -
    define sz where "sz = ?r * ?c"
    have len3: "length (neuts ?s3) = sz + sz"
      using n3 len2 by (simp add: sz_def)
    from that have k: "sz \<le> k" "k < sz + sz"
      by (simp_all add: sz_def)
    then have "k - sz \<in> set [0..<sz]" "sz + (k - sz) < length (neuts ?s3)"
      unfolding len3 by simp_all
    from mark_dead_marks [OF this] k show ?thesis
      by (simp add: sz_def)
  qed
  have low': "\<forall>k<?r * ?c. placed ?c ?dr ?dc k (neuts ?s4 ! k)"
    using low by blast
  have high': "\<forall>k. ?r * ?c \<le> k \<and> k < 2 * ?r * ?c \<longrightarrow> \<not> alive (neuts ?s4 ! k)"
    using high by blast
  show ?thesis
    by (intro exI [of _ ?s4] conjI run len4 low' high')
qed

text \<open>The spacings are quotients of integers: a row and a column more would still fit.\<close>

lemma far_margin:
  assumes "0 < n"
  shows "real (w div (n + 1)) / 2 + real (n - 1) * real (w div (n + 1))
    + 3 * real (w div (n + 1)) / 2 \<le> real w"
proof -
  define q where "q = w div (n + 1)"
  have "q * (n + 1) \<le> w"
    by (simp only: q_def div_times_less_eq_dividend)
  then have "real (q * (n + 1)) \<le> real w"
    by (simp only: of_nat_le_iff)
  then have le: "real q * (real n + 1) \<le> real w"
    by (simp add: algebra_simps)
  have n: "real (n - 1) = real n - 1"
    using assms by (simp add: of_nat_diff)
  have "real q / 2 + real (n - 1) * real q + 3 * real q / 2 = real q * (real n + 1)"
    unfolding n by (simp add: algebra_simps)
  with le show ?thesis
    by (simp only: q_def)
qed

text \<open>No vector makes the function divide by zero.\<close>

lemma initialize_never_divides_by_zero: "initialize_neutrons grow st \<noteq> Inl DivisionByZero"
  by (auto simp: initialize_neutrons_def to_int_def int_div_def Let_def split: sum.splits if_splits)

section \<open>The claims\<close>

subsection \<open>Fission (C1)\<close>

text \<open>
  C1 (defect of the code). A fission emits one or two secondaries and leaves the parent alive
  and re-randomised in place: \<open>fission_that_completes\<close> and \<open>collide_self\<close> above show it
  for every fission that completes, and \<open>step_completes\<close> shows that a round completes when
  two secondaries have room. The code misses it when a secondary has to be appended to a
  full vector (nothing dead, \<open>size() = capacity()\<close>): \<^verbatim>\<open>emplace_back\<close> reallocates, the
  reference \<^verbatim>\<open>n\<close> to the parent dangles, and the writes of lines 179--186 that should
  re-randomise and move the parent go through it. Here four particles are alive in a vector
  of capacity four, the first one collides, the draw 0.08 selects fission and the draw 1
  selects a single secondary.
\<close>

theorem fission_on_full_vector_dangles:
  "move_neutrons 1 (ex_world [hot, cold, cold, cold] 4 [171798692, 2147483647])
     = Inl DanglingReference"
  by (simp add: move_neutrons_def ex_defs run_defs const_defs)

subsection \<open>Capture (C2)\<close>

lemma step_capture:
  assumes "nn < length (neuts st)" "alive (neuts st ! nn)"
    "is_neg (distance_to_collision (neuts st ! nn))" "fst (randf st) < sig_c / sig_t"
  shows "step nn dt st =
     Inr (st\<lparr>neuts := (neuts st)[nn := advance dt ((neuts st ! nn)
                 \<lparr>alive := False,
                  distance_to_collision := neg_log_over_sig_t (fst (randf (snd (randf st)))),
                  u_n := fst (sample st)\<rparr>)],
             rand_calls := Suc (Suc (rand_calls st)), dir_calls := Suc (dir_calls st)\<rparr>)"
  using assms
  by (simp add: step_def collide_def randf_eq resample_eq move_one_def sample_def)

text \<open>
  C2. When the collision of a live particle draws \<open>xi < sig_c / sig_t\<close>, the round
  completes, the particle's \<^verbatim>\<open>alive\<close> flag becomes false, no other flag changes, no element
  is added, and the number of live particles goes down by exactly one.
\<close>

theorem capture_removes_exactly_one:
  assumes "nn < length (neuts st)" "alive (neuts st ! nn)"
    "is_neg (distance_to_collision (neuts st ! nn))" "fst (randf st) < sig_c / sig_t"
  shows "\<exists>st'. step nn dt st = Inr st'
           \<and> map alive (neuts st') = (map alive (neuts st))[nn := False]
           \<and> Suc (live_count (neuts st')) = live_count (neuts st)"
proof -
  let ?n = "advance dt ((neuts st ! nn)
                 \<lparr>alive := False,
                  distance_to_collision := neg_log_over_sig_t (fst (randf (snd (randf st)))),
                  u_n := fst (sample st)\<rparr>)"
  have flags: "map alive ((neuts st)[nn := ?n]) = (map alive (neuts st))[nn := False]"
    by (simp add: map_update advance_def Let_def)
  have "map alive ((neuts st)[nn := ?n])
      = map alive ((neuts st)[nn := (neuts st ! nn)\<lparr>alive := False\<rparr>])"
    by (simp add: map_update advance_def Let_def)
  then have "live_count ((neuts st)[nn := ?n])
      = live_count ((neuts st)[nn := (neuts st ! nn)\<lparr>alive := False\<rparr>])"
    by (simp only: live_count_flags)
  then have "Suc (live_count ((neuts st)[nn := ?n])) = live_count (neuts st)"
    using live_count_kill [OF assms(1,2)] by simp
  with flags step_capture [OF assms, of dt] show ?thesis
    by simp
qed

text \<open>
  A capture among two live particles: the draw 0 is below \<open>sig_c / sig_t\<close>.
\<close>

theorem capture_removes_exactly_one_witness:
  "0 < length (neuts (ex_world [hot, cold] 2 [0, 2147483647]))
   \<and> alive (neuts (ex_world [hot, cold] 2 [0, 2147483647]) ! 0)
   \<and> is_neg (distance_to_collision (neuts (ex_world [hot, cold] 2 [0, 2147483647]) ! 0))
   \<and> fst (randf (ex_world [hot, cold] 2 [0, 2147483647])) < sig_c / sig_t
   \<and> (\<exists>st'. step 0 1 (ex_world [hot, cold] 2 [0, 2147483647]) = Inr st'
           \<and> map alive (neuts st') = [False, True]
           \<and> live_count (neuts st') = 1)"
  using capture_removes_exactly_one [of 0 "ex_world [hot, cold] 2 [0, 2147483647]" 1]
  by (simp add: ex_defs randf_def rand_def const_defs live_count_def)

subsection \<open>The trigger of a collision (C3)\<close>

text \<open>
  C3. For a live particle: when \<^verbatim>\<open>distance_to_collision\<close> is a number strictly below 0, the
  round is the collision of lines 145--181 followed by the flight; when it is not (0 or
  more), the round is the flight alone, in particular at exactly 0. So a round that
  completes has called \<^verbatim>\<open>randf()\<close> (the first thing the collision does, and something the
  flight never does) if and only if the distance was strictly negative, and a round can stop
  on an error only when it was.
\<close>

theorem collision_iff_distance_negative:
  assumes "nn < length (neuts st)" "alive (neuts st ! nn)"
  shows "(case step nn dt st of
            Inl e \<Rightarrow> (\<exists>v. distance_to_collision (neuts st ! nn) = Num v \<and> v < 0)
          | Inr st' \<Rightarrow>
              (rand_calls st < rand_calls st')
                = (\<exists>v. distance_to_collision (neuts st ! nn) = Num v \<and> v < 0))
       \<and> ((\<exists>v. distance_to_collision (neuts st ! nn) = Num v \<and> v < 0) \<longrightarrow>
            step nn dt st
              = (case collide nn st of Inl e \<Rightarrow> Inl e | Inr s \<Rightarrow> Inr (move_one nn dt s)))
       \<and> (\<not> (\<exists>v. distance_to_collision (neuts st ! nn) = Num v \<and> v < 0) \<longrightarrow>
            step nn dt st = Inr (st\<lparr>neuts := (neuts st)[nn := advance dt (neuts st ! nn)]\<rparr>))
       \<and> (distance_to_collision (neuts st ! nn) = Num 0 \<longrightarrow>
            step nn dt st = Inr (st\<lparr>neuts := (neuts st)[nn := advance dt (neuts st ! nn)]\<rparr>))"
proof -
  have trigger: "is_neg (distance_to_collision (neuts st ! nn))
      = (\<exists>v. distance_to_collision (neuts st ! nn) = Num v \<and> v < 0)"
    by (cases "distance_to_collision (neuts st ! nn)") simp_all
  show ?thesis
  proof (cases "is_neg (distance_to_collision (neuts st ! nn))")
    case True
    then have nz: "distance_to_collision (neuts st ! nn) \<noteq> Num 0"
      by auto
    have run: "step nn dt st
        = (case collide nn st of Inl e \<Rightarrow> Inl e | Inr s \<Rightarrow> Inr (move_one nn dt s))"
      using True assms by (simp add: step_def)
    have "case step nn dt st of Inl e \<Rightarrow> True | Inr st' \<Rightarrow> rand_calls st < rand_calls st'"
    proof (cases "collide nn st")
      case (Inl e)
      with run show ?thesis by simp
    next
      case (Inr s)
      with collide_frame [OF Inr assms(1)] run show ?thesis
        by (simp add: move_one_def)
    qed
    with nz run True show ?thesis
      unfolding trigger [symmetric] by (auto split: sum.splits)
  next
    case False
    with assms have "step nn dt st = Inr (move_one nn dt st)"
      by (simp add: step_def)
    with False show ?thesis
      unfolding trigger [symmetric] by (simp add: move_one_def)
  qed
qed

text \<open>
  A particle at distance \<open>-1\<close>: its round draws twice, for a scattering and for the new
  distance. A particle at exactly 0: it flies, and nothing else changes.
\<close>

theorem collision_iff_distance_negative_witness:
  "0 < length (neuts (ex_world [hot] 1 [2147483647, 2147483647]))
   \<and> alive (neuts (ex_world [hot] 1 [2147483647, 2147483647]) ! 0)
   \<and> distance_to_collision (neuts (ex_world [hot] 1 [2147483647, 2147483647]) ! 0) = Num (- 1)
   \<and> step 0 1 (ex_world [hot] 1 [2147483647, 2147483647])
       = Inr ((ex_world [hot\<lparr>u_n := north, distance_to_collision := Num (- vel),
                             r_n := \<lparr>x_p = 0, y_p = vel, z_p = 0\<rparr>\<rparr>] 1
                 [2147483647, 2147483647])\<lparr>rand_calls := 2, dir_calls := 1\<rparr>)
   \<and> rand_calls (ex_world [hot] 1 [2147483647, 2147483647])
       < rand_calls (projr (step 0 1 (ex_world [hot] 1 [2147483647, 2147483647])))
   \<and> 0 < length (neuts (ex_world [hot\<lparr>distance_to_collision := Num 0\<rparr>] 1 []))
   \<and> alive (neuts (ex_world [hot\<lparr>distance_to_collision := Num 0\<rparr>] 1 []) ! 0)
   \<and> step 0 1 (ex_world [hot\<lparr>distance_to_collision := Num 0\<rparr>] 1 [])
       = Inr (ex_world [hot\<lparr>distance_to_collision := Num (- vel),
                            r_n := \<lparr>x_p = vel, y_p = 0, z_p = 0\<rparr>\<rparr>] 1 [])"
proof -
  have run: "step 0 1 (ex_world [hot] 1 [2147483647, 2147483647])
       = Inr ((ex_world [hot\<lparr>u_n := north, distance_to_collision := Num (- vel),
                             r_n := \<lparr>x_p = 0, y_p = vel, z_p = 0\<rparr>\<rparr>] 1
                 [2147483647, 2147483647])\<lparr>rand_calls := 2, dir_calls := 1\<rparr>)"
    by (simp add: ex_defs run_defs const_defs)
  have neg: "0 < length (neuts (ex_world [hot] 1 [2147483647, 2147483647]))"
    "alive (neuts (ex_world [hot] 1 [2147483647, 2147483647]) ! 0)"
    "distance_to_collision (neuts (ex_world [hot] 1 [2147483647, 2147483647]) ! 0) = Num (- 1)"
    by (simp_all add: ex_defs)
  from collision_iff_distance_negative [OF neg(1,2), of 1]
  have "case step 0 1 (ex_world [hot] 1 [2147483647, 2147483647]) of
          Inl e \<Rightarrow> (\<exists>v. distance_to_collision
                           (neuts (ex_world [hot] 1 [2147483647, 2147483647]) ! 0) = Num v \<and> v < 0)
        | Inr st' \<Rightarrow>
            (rand_calls (ex_world [hot] 1 [2147483647, 2147483647]) < rand_calls st')
              = (\<exists>v. distance_to_collision
                       (neuts (ex_world [hot] 1 [2147483647, 2147483647]) ! 0) = Num v \<and> v < 0)"
    by (rule conjunct1)
  then have drawn: "rand_calls (ex_world [hot] 1 [2147483647, 2147483647])
          < rand_calls (projr (step 0 1 (ex_world [hot] 1 [2147483647, 2147483647])))"
    by (simp only: run neg(3) sum.case sum.sel) simp
  have zero: "0 < length (neuts (ex_world [hot\<lparr>distance_to_collision := Num 0\<rparr>] 1 []))"
    "alive (neuts (ex_world [hot\<lparr>distance_to_collision := Num 0\<rparr>] 1 []) ! 0)"
    "distance_to_collision (neuts (ex_world [hot\<lparr>distance_to_collision := Num 0\<rparr>] 1 []) ! 0)
       = Num 0"
    by (simp_all add: ex_defs)
  from collision_iff_distance_negative [OF zero(1,2), of 1] zero(3)
  have "step 0 1 (ex_world [hot\<lparr>distance_to_collision := Num 0\<rparr>] 1 [])
      = Inr ((ex_world [hot\<lparr>distance_to_collision := Num 0\<rparr>] 1 [])
               \<lparr>neuts := (neuts (ex_world [hot\<lparr>distance_to_collision := Num 0\<rparr>] 1 []))
                  [0 := advance 1 (neuts (ex_world [hot\<lparr>distance_to_collision := Num 0\<rparr>] 1 []) ! 0)]\<rparr>)"
    by (elim conjE) (erule mp)
  then have flight: "step 0 1 (ex_world [hot\<lparr>distance_to_collision := Num 0\<rparr>] 1 [])
          = Inr (ex_world [hot\<lparr>distance_to_collision := Num (- vel),
                               r_n := \<lparr>x_p = vel, y_p = 0, z_p = 0\<rparr>\<rparr>] 1 [])"
    by (simp add: ex_defs advance_def scale_def plus_pos_def)
  from run neg drawn zero(1,2) flight show ?thesis
    by (intro conjI)
qed

subsection \<open>The layout after \<^verbatim>\<open>initialize_neutrons\<close> (C4)\<close>

text \<open>
  The claim C4 as stated fails in two ways. With two elements the live particles sit at
  \<open>x = 320\<close> and \<open>x = 960\<close> in a width of 1920: the spacing is 640, the margin on the left is
  half of it, and the margin on the right is 960, three times as much. With 1073790482
  elements \<open>nrows\<close> is 23171, \<^verbatim>\<open>oldsize\<close> is 1073790482 and \<^verbatim>\<open>oldsize * 2\<close> does not
  fit an \<^verbatim>\<open>int\<close>.
\<close>

theorem initialize_layout_counterexample:
  "\<not> isl (initialize_neutrons grow_libstdcxx (ex_world [zero_Neutron, zero_Neutron] 2 []))
   \<and> x_p (r_n (neuts (projr (initialize_neutrons grow_libstdcxx
              (ex_world [zero_Neutron, zero_Neutron] 2 []))) ! 0)) = 320
   \<and> x_p (r_n (neuts (projr (initialize_neutrons grow_libstdcxx
              (ex_world [zero_Neutron, zero_Neutron] 2 []))) ! 1)) = 960
   \<and> real WIDTH - 960 = 3 * 320
   \<and> initialize_neutrons grow_libstdcxx
        (ex_world (replicate 1073790482 zero_Neutron) 1073790482 []) = Inl SignedOverflow"
proof -
  let ?w = "ex_world [zero_Neutron, zero_Neutron] 2 []"
  have r: "sqrt_floor (length (neuts ?w) div 2) = 1"
    by (simp add: ex_world_def sqrt_floor_def)
  have hd: "WIDTH div (2 * 1 + 1) = 640"
    by (simp add: WIDTH_def del: One_nat_def)
  have "length (neuts ?w) < 1073790482"
    by (simp add: ex_world_def)
  from initialize_layout [OF this, of grow_libstdcxx] obtain st'
    where run: "initialize_neutrons grow_libstdcxx ?w = Inr st'"
      and low: "\<forall>k<1 * (2 * 1).
           placed (2 * 1) (real (HEIGHT div (1 + 1))) (real (WIDTH div (2 * 1 + 1))) k
             (neuts st' ! k)"
    unfolding r by (elim exE conjE) (rule that)
  from low [rule_format, of 0] low [rule_format, of 1]
  have "x_p (r_n (neuts st' ! 0)) = 320" "x_p (r_n (neuts st' ! 1)) = 960"
    unfolding hd placed_def by simp_all
  with run have near: "\<not> isl (initialize_neutrons grow_libstdcxx ?w)
      \<and> x_p (r_n (neuts (projr (initialize_neutrons grow_libstdcxx ?w)) ! 0)) = 320
      \<and> x_p (r_n (neuts (projr (initialize_neutrons grow_libstdcxx ?w)) ! 1)) = 960
      \<and> real WIDTH - 960 = 3 * 320"
    by (simp add: WIDTH_def)
  have s: "sqrt_floor 536895241 = 23171"
    by (rule sqrt_floor_eqI) simp_all
  have len: "length (neuts (ex_world (replicate 1073790482 zero_Neutron) 1073790482 []))
      = 1073790482"
    by (simp add: ex_world_def)
  have half: "(1073790482::nat) div 2 = 536895241"
    by simp
  have "initialize_neutrons grow_libstdcxx
        (ex_world (replicate 1073790482 zero_Neutron) 1073790482 []) = Inl SignedOverflow"
    unfolding initialize_neutrons_def len half s
    by (simp add: to_int_def int_div_def INT_MAX_def resize_shrink len Let_def)
  with near show ?thesis
    by (simp only: simp_thms)
qed

text \<open>
  C4 (amended). For every count \<open>N\<close> with \<open>2 \<le> N < 1073790482\<close> the function returns, with
  \<open>nrows\<close> the truncated square root of \<open>N / 2\<close> and \<open>ncols = 2 * nrows\<close>, a vector of
  \<open>2 * nrows * ncols\<close> elements. The first \<open>nrows * ncols\<close> are alive, with
  \<^verbatim>\<open>distance_to_collision\<close> 0, element \<open>k\<close> at column \<open>k mod ncols\<close> and row
  \<open>k div ncols\<close> of a grid that starts half a spacing from the origin: \<open>x = dc/2 + col * dc\<close>
  and \<open>y = dr/2 + row * dr\<close>, where \<open>dr = HEIGHT div (nrows + 1)\<close> and
  \<open>dc = WIDTH div (ncols + 1)\<close>. The other \<open>nrows * ncols\<close> elements are dead. Beyond the last
  column and the last row at least one and a half spacings remain.
\<close>

theorem initialize_grid_layout:
  assumes "2 \<le> length (neuts st)" "length (neuts st) < 1073790482"
  shows "\<exists>st'. initialize_neutrons grow st = Inr st' \<and>
     (let nrows = sqrt_floor (length (neuts st) div 2); ncols = 2 * nrows;
          dr = real (HEIGHT div (nrows + 1)); dc = real (WIDTH div (ncols + 1))
      in nat \<lfloor>sqrt (real (length (neuts st)) / 2)\<rfloor> = nrows
         \<and> length (neuts st') = 2 * nrows * ncols
         \<and> (\<forall>k<nrows * ncols.
               alive (neuts st' ! k) \<and> distance_to_collision (neuts st' ! k) = Num 0
               \<and> r_n (neuts st' ! k) = \<lparr>x_p = dc / 2 + real (k mod ncols) * dc,
                                         y_p = dr / 2 + real (k div ncols) * dr, z_p = 0\<rparr>)
         \<and> (\<forall>k. nrows * ncols \<le> k \<and> k < 2 * nrows * ncols \<longrightarrow> \<not> alive (neuts st' ! k))
         \<and> dc / 2 + real (ncols - 1) * dc + 3 * dc / 2 \<le> real WIDTH
         \<and> dr / 2 + real (nrows - 1) * dr + 3 * dr / 2 \<le> real HEIGHT)"
proof -
  let ?r = "sqrt_floor (length (neuts st) div 2)"
  from initialize_layout [OF assms(2), of grow] obtain st'
    where run: "initialize_neutrons grow st = Inr st'"
      and len: "length (neuts st') = 2 * ?r * (2 * ?r)"
      and low: "\<forall>k<?r * (2 * ?r).
           placed (2 * ?r) (real (HEIGHT div (?r + 1))) (real (WIDTH div (2 * ?r + 1))) k
             (neuts st' ! k)"
      and high: "\<forall>k. ?r * (2 * ?r) \<le> k \<and> k < 2 * ?r * (2 * ?r) \<longrightarrow> \<not> alive (neuts st' ! k)"
    by blast
  have sq: "nat \<lfloor>sqrt (real (length (neuts st)) / 2)\<rfloor> = ?r"
    by (simp only: sqrt_floor_half)
  have "1 * 1 \<le> length (neuts st) div 2" "length (neuts st) div 2 < Suc (length (neuts st) div 2) * Suc (length (neuts st) div 2)"
    using assms(1) by simp_all
  have pos: "0 < ?r"
  proof (rule ccontr)
    assume "\<not> 0 < ?r"
    then have "?r = 0" by simp
    with sqrt_floor_bounds [of "length (neuts st) div 2"] have "length (neuts st) div 2 < 1"
      by simp
    with assms(1) show False by simp
  qed
  then have pos2: "0 < 2 * ?r"
    by simp
  have low': "\<forall>k<?r * (2 * ?r).
               alive (neuts st' ! k) \<and> distance_to_collision (neuts st' ! k) = Num 0
               \<and> r_n (neuts st' ! k)
                   = \<lparr>x_p = real (WIDTH div (2 * ?r + 1)) / 2
                              + real (k mod (2 * ?r)) * real (WIDTH div (2 * ?r + 1)),
                       y_p = real (HEIGHT div (?r + 1)) / 2
                              + real (k div (2 * ?r)) * real (HEIGHT div (?r + 1)), z_p = 0\<rparr>"
    using low by (simp only: placed_def)
  show ?thesis
    unfolding Let_def
    by (intro exI [of _ st'] conjI run sq len low' high far_margin [OF pos2] far_margin [OF pos])
qed

text \<open>
  Two requested particles: one row, two columns, four elements.
\<close>

theorem initialize_grid_layout_witness:
  "2 \<le> length (neuts (ex_world [zero_Neutron, zero_Neutron] 2 []))
   \<and> length (neuts (ex_world [zero_Neutron, zero_Neutron] 2 [])) < 1073790482
   \<and> (\<exists>st'. initialize_neutrons grow_libstdcxx (ex_world [zero_Neutron, zero_Neutron] 2 [])
               = Inr st'
         \<and> length (neuts st') = 4
         \<and> alive (neuts st' ! 0) \<and> r_n (neuts st' ! 0) = \<lparr>x_p = 320, y_p = 270, z_p = 0\<rparr>
         \<and> alive (neuts st' ! 1) \<and> r_n (neuts st' ! 1) = \<lparr>x_p = 960, y_p = 270, z_p = 0\<rparr>
         \<and> \<not> alive (neuts st' ! 2) \<and> \<not> alive (neuts st' ! 3))"
proof -
  let ?w = "ex_world [zero_Neutron, zero_Neutron] 2 []"
  have r: "sqrt_floor (length (neuts ?w) div 2) = 1"
    by (simp add: ex_world_def sqrt_floor_def)
  have hd: "HEIGHT div (1 + 1) = 540" "WIDTH div (2 * 1 + 1) = 640"
    by (simp_all add: HEIGHT_def WIDTH_def del: One_nat_def)
  have h: "2 \<le> length (neuts ?w)" "length (neuts ?w) < 1073790482"
    by (simp_all add: ex_world_def)
  from initialize_grid_layout [OF h, of grow_libstdcxx] obtain st'
    where run: "initialize_neutrons grow_libstdcxx ?w = Inr st'"
      and body: "let nrows = sqrt_floor (length (neuts ?w) div 2); ncols = 2 * nrows;
          dr = real (HEIGHT div (nrows + 1)); dc = real (WIDTH div (ncols + 1))
      in nat \<lfloor>sqrt (real (length (neuts ?w)) / 2)\<rfloor> = nrows
         \<and> length (neuts st') = 2 * nrows * ncols
         \<and> (\<forall>k<nrows * ncols.
               alive (neuts st' ! k) \<and> distance_to_collision (neuts st' ! k) = Num 0
               \<and> r_n (neuts st' ! k) = \<lparr>x_p = dc / 2 + real (k mod ncols) * dc,
                                         y_p = dr / 2 + real (k div ncols) * dr, z_p = 0\<rparr>)
         \<and> (\<forall>k. nrows * ncols \<le> k \<and> k < 2 * nrows * ncols \<longrightarrow> \<not> alive (neuts st' ! k))
         \<and> dc / 2 + real (ncols - 1) * dc + 3 * dc / 2 \<le> real WIDTH
         \<and> dr / 2 + real (nrows - 1) * dr + 3 * dr / 2 \<le> real HEIGHT"
    by (elim exE conjE) (rule that)
  note b = body [unfolded Let_def r hd]
  have len: "length (neuts st') = 4"
    using b [THEN conjunct2, THEN conjunct1] by simp
  note low = b [THEN conjunct2, THEN conjunct2, THEN conjunct1, rule_format]
  note high = b [THEN conjunct2, THEN conjunct2, THEN conjunct2, THEN conjunct1, rule_format]
  from low [of 0] low [of 1]
  have "alive (neuts st' ! 0) \<and> r_n (neuts st' ! 0) = \<lparr>x_p = 320, y_p = 270, z_p = 0\<rparr>"
    "alive (neuts st' ! 1) \<and> r_n (neuts st' ! 1) = \<lparr>x_p = 960, y_p = 270, z_p = 0\<rparr>"
    by simp_all
  moreover from high [of 2] high [of 3]
  have "\<not> alive (neuts st' ! 2)" "\<not> alive (neuts st' ! 3)"
    by simp_all
  ultimately show ?thesis
    using h run len by simp
qed

subsection \<open>Particles appended during a pass (C5)\<close>

text \<open>
  The claim C5 says that a particle appended during a pass can itself collide in that pass.
  Here a fission appends one secondary with the first sampled direction and the fresh
  distance 0, the smallest value a draw can give. The pass visits it: it makes its flight
  along that direction. It does not collide: the pass makes four calls of \<^verbatim>\<open>rand()\<close> and two
  of the sampler, all of them in the parent's collision.
\<close>

theorem appended_progeny_no_collision_counterexample:
  "move_neutrons 1 (ex_world [hot] 2 [171798692, 2147483647, 0, 2147483647])
     = Inr ((ex_world [advance 1 (hot\<lparr>distance_to_collision := Num 0, u_n := south\<rparr>),
                       advance 1 (hot\<lparr>u_n := north, distance_to_collision := Num 0\<rparr>)] 2
               [171798692, 2147483647, 0, 2147483647])\<lparr>rand_calls := 4, dir_calls := 2\<rparr>)"
  by (simp add: move_neutrons_def ex_defs run_defs const_defs)

text \<open>
  C5 (amended). Every element appended by the round of particle \<open>nn\<close> is alive with a
  distance that is not negative, and the rest of the same pass, when it completes, visits
  it and gives it exactly one flight and no collision.
\<close>

theorem appended_progeny_flies_without_collision:
  assumes "nn < length (neuts st)" "step nn dt st = Inr st1"
    "move_from (Suc nn) dt st1 = Inr st'"
    "length (neuts st) \<le> i" "i < length (neuts st1)"
  shows "alive (neuts st1 ! i) \<and> \<not> is_neg (distance_to_collision (neuts st1 ! i))
       \<and> neuts st' ! i = advance dt (neuts st1 ! i)"
proof -
  have fresh: "alive (neuts st1 ! i) \<and> \<not> is_neg (distance_to_collision (neuts st1 ! i))"
    by (rule step_new [OF assms(2,1,4,5)])
  have "Suc nn \<le> i"
    using assms(1,4) by simp
  with move_from_ahead [OF assms(3) _ assms(5)] fresh show ?thesis
    by simp
qed

text \<open>
  The pass of the counterexample, cut after the round of the parent.
\<close>

theorem appended_progeny_flies_without_collision_witness:
  "0 < length (neuts (ex_world [hot] 2 [171798692, 2147483647, 0, 2147483647]))
   \<and> step 0 1 (ex_world [hot] 2 [171798692, 2147483647, 0, 2147483647])
       = Inr ((ex_world [hot\<lparr>distance_to_collision := Num (- vel), u_n := south,
                            r_n := scale south vel\<rparr>,
                        hot\<lparr>distance_to_collision := Num 0, u_n := north\<rparr>] 2
                [171798692, 2147483647, 0, 2147483647])\<lparr>rand_calls := 4, dir_calls := 2\<rparr>)
   \<and> move_from 1 1 ((ex_world [hot\<lparr>distance_to_collision := Num (- vel), u_n := south,
                            r_n := scale south vel\<rparr>,
                        hot\<lparr>distance_to_collision := Num 0, u_n := north\<rparr>] 2
                [171798692, 2147483647, 0, 2147483647])\<lparr>rand_calls := 4, dir_calls := 2\<rparr>)
       = Inr ((ex_world [hot\<lparr>distance_to_collision := Num (- vel), u_n := south,
                            r_n := scale south vel\<rparr>,
                        hot\<lparr>distance_to_collision := Num (- vel), u_n := north,
                            r_n := scale north vel\<rparr>] 2
                [171798692, 2147483647, 0, 2147483647])\<lparr>rand_calls := 4, dir_calls := 2\<rparr>)
   \<and> advance 1 (hot\<lparr>distance_to_collision := Num 0, u_n := north\<rparr>)
       = hot\<lparr>distance_to_collision := Num (- vel), u_n := north, r_n := scale north vel\<rparr>"
proof -
  let ?w = "ex_world [hot] 2 [171798692, 2147483647, 0, 2147483647]"
  let ?w1 = "(ex_world [hot\<lparr>distance_to_collision := Num (- vel), u_n := south,
                            r_n := scale south vel\<rparr>,
                        hot\<lparr>distance_to_collision := Num 0, u_n := north\<rparr>] 2
                [171798692, 2147483647, 0, 2147483647])\<lparr>rand_calls := 4, dir_calls := 2\<rparr>"
  let ?w2 = "(ex_world [hot\<lparr>distance_to_collision := Num (- vel), u_n := south,
                            r_n := scale south vel\<rparr>,
                        hot\<lparr>distance_to_collision := Num (- vel), u_n := north,
                            r_n := scale north vel\<rparr>] 2
                [171798692, 2147483647, 0, 2147483647])\<lparr>rand_calls := 4, dir_calls := 2\<rparr>"
  have len: "0 < length (neuts ?w)"
    by (simp add: ex_defs)
  have s1: "step 0 1 ?w = Inr ?w1"
    by (simp add: ex_defs run_defs const_defs)
  have s2: "move_from (Suc 0) 1 ?w1 = Inr ?w2"
    by (simp add: ex_defs run_defs const_defs)
  have "length (neuts ?w) \<le> 1" "1 < length (neuts ?w1)"
    by (simp_all add: ex_defs)
  from appended_progeny_flies_without_collision [OF len s1 s2 this] s1 s2 show ?thesis
    by (simp add: ex_defs)
qed

subsection \<open>The slot of a secondary (C6)\<close>



subsection \<open>The length of the vector (C7)\<close>

text \<open>
  C7. A pass that completes leaves a vector at least as long as it found it, and live
  particles never outnumber the elements. (\<open>move_neutrons_completes\<close> above: a pass
  completes when the capacity has room for its secondaries.)
\<close>

theorem length_never_shrinks:
  assumes "move_neutrons dt st = Inr st'"
  shows "length (neuts st) \<le> length (neuts st')
       \<and> live_count (neuts st) \<le> length (neuts st)
       \<and> live_count (neuts st') \<le> length (neuts st')"
  using assms move_from_length [of 0 dt st st']
  by (simp add: move_neutrons_def live_count_def)

text \<open>
  A pass in which a fission appends an element.
\<close>

theorem length_never_shrinks_witness:
  "move_neutrons 1 (ex_world [hot] 2 [171798692, 2147483647, 0, 2147483647]) =
     Inr ((ex_world [hot\<lparr>distance_to_collision := Num (- vel), u_n := south,
                          r_n := scale south vel\<rparr>,
                     hot\<lparr>distance_to_collision := Num (- vel), u_n := north,
                          r_n := scale north vel\<rparr>] 2
             [171798692, 2147483647, 0, 2147483647])
           \<lparr>rand_calls := 4, dir_calls := 2\<rparr>)
   \<and> length (neuts (ex_world [hot] 2 [171798692, 2147483647, 0, 2147483647])) \<le> 2"
proof -
  have run: "move_neutrons 1 (ex_world [hot] 2 [171798692, 2147483647, 0, 2147483647]) =
     Inr ((ex_world [hot\<lparr>distance_to_collision := Num (- vel), u_n := south,
                          r_n := scale south vel\<rparr>,
                     hot\<lparr>distance_to_collision := Num (- vel), u_n := north,
                          r_n := scale north vel\<rparr>] 2
             [171798692, 2147483647, 0, 2147483647])
           \<lparr>rand_calls := 4, dir_calls := 2\<rparr>)"
    by (simp add: move_neutrons_def ex_defs run_defs const_defs)
  from length_never_shrinks [OF run] run show ?thesis
    by (simp add: ex_world_def)
qed

subsection \<open>Resampling after a collision (C8)\<close>

text \<open>
  C8 (defect of the code). After a collision the particle's own distance and direction are
  drawn again, whatever the outcome; \<open>collide_self\<close> above shows it for every collision that
  completes. The code misses it in a fission that has to append to a full vector, for the
  reason given at C1. Here the first secondary takes the only dead element, the second finds
  the vector full, and lines 179--180 write through the dangling reference.
\<close>

theorem second_secondary_on_full_vector_dangles:
  "first_dead (neuts (ex_world [hot, cold, cold, zero_Neutron] 4 [171798692, 0, 1])) = Some 3
   \<and> collide 0 (ex_world [hot, cold, cold, zero_Neutron] 4 [171798692, 0, 1])
       = Inl DanglingReference"
  by (simp add: ex_defs run_defs const_defs)

subsection \<open>No particle requested, or one (C9)\<close>

text \<open>
  The claim C9 says that the function raises a grid of zero rows to at least one row or
  column. With one element it does not: the grid stays empty and so does the vector.
\<close>

theorem initialize_no_floor_counterexample:
  "initialize_neutrons grow_libstdcxx (ex_world [zero_Neutron] 1 []) = Inr (ex_world [] 1 [])"
  by (simp add: initialize_neutrons_def ex_world_def sqrt_floor_def to_int_def int_div_def
      INT_MAX_def resize_def HEIGHT_def WIDTH_def)

text \<open>
  C9 (amended). With at most one element \<open>nrows\<close> is 0 and stays 0, the two spacings are
  \<open>HEIGHT div (nrows + 1) = HEIGHT\<close> and \<open>WIDTH div (ncols + 1) = WIDTH\<close>, so nothing is
  divided by zero, and the function returns the empty vector, with no draw made.
\<close>

theorem initialize_tiny_stays_empty:
  assumes "length (neuts st) \<le> 1"
  shows "sqrt_floor (length (neuts st) div 2) = 0
       \<and> int_div HEIGHT (sqrt_floor (length (neuts st) div 2) + 1) = Inr HEIGHT
       \<and> int_div WIDTH (2 * sqrt_floor (length (neuts st) div 2) + 1) = Inr WIDTH
       \<and> initialize_neutrons grow st = Inr (st\<lparr>neuts := []\<rparr>)"
proof -
  from assms have "length (neuts st) div 2 = 0"
    by simp
  then have r: "sqrt_floor (length (neuts st) div 2) = 0"
    by (simp add: sqrt_floor_def)
  then show ?thesis
    by (simp add: initialize_neutrons_def to_int_def int_div_def INT_MAX_def resize_def
        HEIGHT_def WIDTH_def)
qed

text \<open>
  The empty vector.
\<close>

theorem initialize_tiny_stays_empty_witness:
  "length (neuts (ex_world [] 0 [])) \<le> 1
   \<and> initialize_neutrons grow_libstdcxx (ex_world [] 0 []) = Inr (ex_world [] 0 [])"
  using initialize_tiny_stays_empty [of "ex_world [] 0 []" grow_libstdcxx]
  by (simp add: ex_world_def)

subsection \<open>A captured particle in its last pass (C10)\<close>

text \<open>
  C10. The round that captures a particle still gives it the fresh direction and distance
  of lines 179--180 and the flight of lines 184--186, along the fresh direction; in every later
  round at its index it is skipped.
\<close>

theorem captured_particle_still_moves:
  assumes "nn < length (neuts st)" "alive (neuts st ! nn)"
    "is_neg (distance_to_collision (neuts st ! nn))" "fst (randf st) < sig_c / sig_t"
  shows "\<exists>st'. step nn dt st = Inr st'
           \<and> \<not> alive (neuts st' ! nn)
           \<and> u_n (neuts st' ! nn) = fst (sample st)
           \<and> distance_to_collision (neuts st' ! nn)
               = minus_dbl (neg_log_over_sig_t (fst (randf (snd (randf st))))) (vel * dt)
           \<and> r_n (neuts st' ! nn)
               = plus_pos (r_n (neuts st ! nn)) (scale (fst (sample st)) (vel * dt))
           \<and> (\<forall>dt'. step nn dt' st' = Inr st')"
  using assms step_capture [OF assms, of dt]
  by (simp add: advance_def Let_def step_def)

text \<open>
  The capture of C2, with the fields of the particle after its round.
\<close>

theorem captured_particle_still_moves_witness:
  "0 < length (neuts (ex_world [hot, cold] 2 [0, 2147483647]))
   \<and> alive (neuts (ex_world [hot, cold] 2 [0, 2147483647]) ! 0)
   \<and> is_neg (distance_to_collision (neuts (ex_world [hot, cold] 2 [0, 2147483647]) ! 0))
   \<and> fst (randf (ex_world [hot, cold] 2 [0, 2147483647])) < sig_c / sig_t
   \<and> (\<exists>st'. step 0 1 (ex_world [hot, cold] 2 [0, 2147483647]) = Inr st'
           \<and> \<not> alive (neuts st' ! 0)
           \<and> u_n (neuts st' ! 0) = north
           \<and> distance_to_collision (neuts st' ! 0) = Num (- vel)
           \<and> r_n (neuts st' ! 0) = \<lparr>x_p = 0, y_p = vel, z_p = 0\<rparr>
           \<and> (\<forall>dt'. step 0 dt' st' = Inr st'))"
  using captured_particle_still_moves [of 0 "ex_world [hot, cold] 2 [0, 2147483647]" 1]
  by (simp add: ex_defs randf_def rand_def sample_def const_defs neg_log_over_sig_t_def
      scale_def plus_pos_def)

end
